theory Spec2Isabelle
  imports Main "HOL-Library.Word"
begin

unbundle bit_operations_syntax

section \<open>Data model\<close>

text \<open>
  A snapshot file is a sequence of bytes. Go strings are byte sequences, so a Go
  \<open>string\<close> is a \<open>char list\<close>; \<open>[]byte(s)\<close> and \<open>string(data)\<close> convert
  between the two.
\<close>

type_synonym byte = "8 word"

definition byte_of_char :: "char \<Rightarrow> byte" where
  "byte_of_char c = of_nat (of_char c)"

definition char_of_byte :: "byte \<Rightarrow> char" where
  "char_of_byte b = char_of (unat b)"

definition bytes_of :: "string \<Rightarrow> byte list" where
  "bytes_of s = map byte_of_char s"

definition string_of :: "byte list \<Rightarrow> string" where
  "string_of data = map char_of_byte data"

text \<open>
  A \<open>time.Time\<close> is an instant in nanoseconds relative to the Unix epoch. The zero
  value \<open>time.Time{}\<close> is kept apart: an expiry field is \<open>None\<close> when it holds
  the zero value and \<open>Some t\<close> otherwise (\<open>time.Now().Add(d)\<close> never yields the zero
  value).
\<close>

type_synonym time = int

text \<open>\<open>type KeyValue struct { value string; expiry time.Time }\<close> (handler.go).\<close>

record KeyValue =
  kv_value :: string
  kv_expiry :: "time option"

definition zeroKeyValue :: KeyValue where
  "zeroKeyValue = \<lparr>kv_value = [], kv_expiry = None\<rparr>"

text \<open>
  Indexing a Go map: \<open>v, ok := m[k]\<close> yields the zero value and \<open>false\<close> for a
  missing key.
\<close>

definition map_index :: "(string \<rightharpoonup> KeyValue) \<Rightarrow> string \<Rightarrow> KeyValue \<times> bool" where
  "map_index m k = (case m k of None \<Rightarrow> (zeroKeyValue, False) | Some v \<Rightarrow> (v, True))"

text \<open>
  \<open>range\<close> over a Go map visits every key exactly once, in an order the language
  leaves open. The order is a parameter of every function that ranges over a map;
  \<open>range_order m ks\<close> says that \<open>ks\<close> is one of the orders the runtime may choose.
\<close>

definition range_order :: "(string \<rightharpoonup> 'v) \<Rightarrow> string list \<Rightarrow> bool" where
  "range_order m ks = (distinct ks \<and> set ks = dom m)"

text \<open>The markers of persistence.go.\<close>

definition STRING_TYPE :: byte where "STRING_TYPE = 0x00"
definition METADATA_SECTION :: byte where "METADATA_SECTION = 0xFA"
definition DB_INDEX :: byte where "DB_INDEX = 0x00"
definition DB_SECTION :: byte where "DB_SECTION = 0xFE"
definition HASHTABLE_SIZE :: byte where "HASHTABLE_SIZE = 0xFB"
definition KEYVALUE_EXPIRY :: byte where "KEYVALUE_EXPIRY = 0xFC"
definition EOF :: byte where "EOF = 0xFF"

text \<open>Every error value the snapshot code can return.\<close>

datatype error =
    io_EOF
  | io_ErrUnexpectedEOF
  | ErrOpen
  | ErrEmptyFile
  | ErrInvalidHeader
  | ErrLengthTooLarge int
  | ErrUnsupportedLengthEncoding
  | ErrExpectedMetadataMarker byte
  | ErrUnsupportedType byte
  | ErrExpectedDBSection byte
  | ErrExpectedHashtableSize byte
  | ErrExpectedEOF byte

section \<open>Snapshot encoder\<close>

text \<open>
  \<open>lengthEncoding(strLen int)\<close>: \<open>byte(x)\<close> keeps the low eight bits, \<open>>>\<close> on a
  Go \<open>int\<close> is the arithmetic shift.
\<close>

definition lengthEncoding :: "int \<Rightarrow> error + byte list" where
  "lengthEncoding strLen =
     (if strLen < push_bit 6 1 then Inr [word_of_int strLen]
      else if strLen < push_bit 14 1
        then Inr [word_of_int (drop_bit 8 strLen) OR 0x40, word_of_int strLen]
      else Inl (ErrLengthTooLarge strLen))"

text \<open>
  \<open>stringEncoding\<close> writes nothing when the length cannot be encoded, and returns
  the error; its callers drop the error. The model returns the error and the bytes
  written.
\<close>

definition stringEncoding :: "string \<Rightarrow> error option \<times> byte list" where
  "stringEncoding s =
     (case lengthEncoding (int (length s)) of
        Inl err \<Rightarrow> (Some err, [])
      | Inr bytes \<Rightarrow> (None, bytes @ bytes_of s))"

text \<open>\<open>binary.LittleEndian.PutUint64\<close>, as the bytes of \<open>v\<close> from the lowest up.\<close>

fun PutUint :: "nat \<Rightarrow> 64 word \<Rightarrow> byte list" where
  "PutUint 0 v = []"
| "PutUint (Suc n) v = ucast v # PutUint n (drop_bit 8 v)"

text \<open>\<open>binary.LittleEndian.Uint64\<close> and \<open>Uint16\<close>.\<close>

fun Uint64 :: "byte list \<Rightarrow> 64 word" where
  "Uint64 [] = 0"
| "Uint64 (b # bs) = ucast b OR push_bit 8 (Uint64 bs)"

fun Uint16 :: "byte list \<Rightarrow> 16 word" where
  "Uint16 [] = 0"
| "Uint16 (b # bs) = ucast b OR push_bit 8 (Uint16 bs)"

text \<open>
  \<open>Time.UnixMilli\<close> rounds down to the millisecond; \<open>time.UnixMilli\<close> builds the
  instant back; \<open>t.After(u)\<close> is strict.
\<close>

definition UnixMilli :: "time \<Rightarrow> int" where
  "UnixMilli t = t div 1000000"

definition time_UnixMilli :: "int \<Rightarrow> time" where
  "time_UnixMilli msec = msec * 1000000"

definition After :: "time \<Rightarrow> time \<Rightarrow> bool" where
  "After t u = (u < t)"

definition timestampEncoding :: "time \<Rightarrow> byte list" where
  "timestampEncoding expire = PutUint 8 (word_of_int (UnixMilli expire))"

definition writeKeyValue :: "string \<Rightarrow> KeyValue \<Rightarrow> byte list" where
  "writeKeyValue key v =
     (case kv_expiry v of
        None \<Rightarrow> [STRING_TYPE] @ snd (stringEncoding key) @ snd (stringEncoding (kv_value v))
      | Some expire \<Rightarrow>
          [KEYVALUE_EXPIRY] @ timestampEncoding expire @ [STRING_TYPE]
            @ snd (stringEncoding key) @ snd (stringEncoding (kv_value v)))"

text \<open>
  \<open>hash/crc64\<close> with the ECMA table: the table entry of a byte is eight steps of the
  reflected polynomial division, and \<open>update\<close> complements the running value before
  and after.
\<close>

definition crc64_step :: "64 word \<Rightarrow> 64 word" where
  "crc64_step c = (if bit c 0 then drop_bit 1 c XOR 0xC96C5795D7870F42 else drop_bit 1 c)"

definition crc64_table :: "byte \<Rightarrow> 64 word" where
  "crc64_table i = (crc64_step ^^ 8) (ucast i)"

definition crc64_update :: "64 word \<Rightarrow> byte list \<Rightarrow> 64 word" where
  "crc64_update crc p =
     NOT (fold (\<lambda>v c. crc64_table (ucast c XOR v) XOR drop_bit 8 c) p (NOT crc))"

text \<open>
  \<open>calculateCRC64Checksum\<close> on the content of the file: the checksum of all its
  bytes, little-endian.
\<close>

definition calculateCRC64Checksum :: "byte list \<Rightarrow> byte list" where
  "calculateCRC64Checksum content = PutUint 8 (crc64_update 0 content)"

text \<open>
  The bytes \<open>initRDB\<close> has written when it flushes for the first time, for the store
  \<open>SETs\<close> ranged over in the order \<open>ks\<close>.
\<close>

definition rdb_entries :: "string list \<Rightarrow> (string \<rightharpoonup> KeyValue) \<Rightarrow> byte list" where
  "rdb_entries ks SETs =
     concat (map (\<lambda>key. case SETs key of None \<Rightarrow> [] | Some v \<Rightarrow> writeKeyValue key v) ks)"

definition rdb_body :: "string list \<Rightarrow> (string \<rightharpoonup> KeyValue) \<Rightarrow> byte list" where
  "rdb_body ks SETs =
     bytes_of ''REDIS0011''
     @ [METADATA_SECTION] @ snd (stringEncoding ''redis-ver'') @ snd (stringEncoding ''7.2.0'')
     @ [METADATA_SECTION] @ snd (stringEncoding ''redis-bits'') @ [0xc0, 0x40]
     @ [DB_SECTION] @ [DB_INDEX] @ [HASHTABLE_SIZE, of_nat (card (dom SETs))] @ [0x00]
     @ rdb_entries ks SETs
     @ [EOF]"

section \<open>Snapshot decoder\<close>

text \<open>
  A \<open>bufio.Reader\<close> over the file is the list of bytes not read yet. A read returns
  an error, or its result and the remaining bytes.
\<close>

type_synonym 'a reader = "byte list \<Rightarrow> error + ('a \<times> byte list)"

definition ret :: "'a \<Rightarrow> 'a reader" where
  "ret v bs = Inr (v, bs)"

definition fail :: "error \<Rightarrow> 'a reader" where
  "fail e bs = Inl e"

text \<open>\<open>seq p f\<close>: run \<open>p\<close>, return its error if it has one, go on with \<open>f\<close> otherwise.\<close>

definition seq :: "'a reader \<Rightarrow> ('a \<Rightarrow> 'b reader) \<Rightarrow> 'b reader" where
  "seq p f bs = (case p bs of Inl e \<Rightarrow> Inl e | Inr (v, rest) \<Rightarrow> f v rest)"

definition ReadByte :: "byte reader" where
  "ReadByte bs = (case bs of [] \<Rightarrow> Inl io_EOF | b # rest \<Rightarrow> Inr (b, rest))"

text \<open>
  \<open>io.ReadFull(reader, buf)\<close> with \<open>len(buf) = n\<close>: nothing to do for an empty
  buffer, \<open>io.EOF\<close> when no byte is left, \<open>io.ErrUnexpectedEOF\<close> when some but
  fewer than \<open>n\<close> are.
\<close>

definition ReadFull :: "nat \<Rightarrow> byte list reader" where
  "ReadFull n bs =
     (if n = 0 then Inr ([], bs)
      else if bs = [] then Inl io_EOF
      else if length bs < n then Inl io_ErrUnexpectedEOF
      else Inr (take n bs, drop n bs))"

definition verifyHeader :: "unit reader" where
  "verifyHeader =
     seq (ReadFull (length (bytes_of ''REDIS0011''))) (\<lambda>header.
       if string_of header \<noteq> ''REDIS0011'' then fail ErrInvalidHeader else ret ())"

definition readLengthEncoded :: "int reader" where
  "readLengthEncoded =
     seq ReadByte (\<lambda>firstByte.
       if drop_bit 6 firstByte = 0 then ret (uint firstByte)
       else if drop_bit 6 firstByte = 1 then
         seq ReadByte (\<lambda>secondByte.
           ret (push_bit 8 (uint (firstByte AND 0x3F)) OR uint secondByte))
       else fail ErrUnsupportedLengthEncoding)"

definition readString :: "string reader" where
  "readString =
     seq readLengthEncoded (\<lambda>length.
       seq (ReadFull (nat length)) (\<lambda>data. ret (string_of data)))"

definition readTimestamp :: "time reader" where
  "readTimestamp =
     seq (ReadFull 8) (\<lambda>buffer. ret (time_UnixMilli (sint (Uint64 buffer))))"

text \<open>
  \<open>readKeyValue\<close>; \<open>now\<close> is what \<open>time.Now()\<close> returns. \<open>readKeyValue_tail\<close> is
  the code after the expiry block, entered with the type byte read last.
\<close>

definition readKeyValue_tail :: "byte \<Rightarrow> (string \<times> string) reader" where
  "readKeyValue_tail typ =
     (if typ \<noteq> STRING_TYPE then fail (ErrUnsupportedType typ)
      else seq readString (\<lambda>key. seq readString (\<lambda>value. ret (key, value))))"

definition readKeyValue :: "time \<Rightarrow> (string \<times> string) reader" where
  "readKeyValue now =
     seq ReadByte (\<lambda>typ.
       if typ = KEYVALUE_EXPIRY then
         seq readTimestamp (\<lambda>expiry.
           if After now expiry then
             seq ReadByte (\<lambda>typ.
               if typ \<noteq> STRING_TYPE then fail (ErrUnsupportedType typ)
               else seq readString (\<lambda>_. seq readString (\<lambda>_. ret ([], []))))
           else seq ReadByte readKeyValue_tail)
       else readKeyValue_tail typ)"

text \<open>The values \<open>readMetadata\<close> stores: a string, or the 16-bit integer of \<open>redis-bits\<close>.\<close>

datatype metadata_value = MetaString string | MetaUint16 "16 word"

lemma seq_Inr_length:
  assumes "\<And>bs v rest. p bs = Inr (v, rest) \<Longrightarrow> length rest \<le> length bs"
    and "\<And>x bs v rest. f x bs = Inr (v, rest) \<Longrightarrow> length rest \<le> length bs"
    and "seq p f bs = Inr (v, rest)"
  shows "length rest \<le> length bs"
proof (cases "p bs")
  case (Inl e)
  with assms(3) show ?thesis by (simp add: seq_def)
next
  case (Inr r)
  obtain x mid where r: "r = (x, mid)" by (cases r)
  from Inr r assms(3) have "f x mid = Inr (v, rest)" by (simp add: seq_def)
  from assms(2)[OF this] assms(1)[of bs x mid] Inr r show ?thesis by simp
qed

lemma ReadByte_length: "ReadByte bs = Inr (v, rest) \<Longrightarrow> length rest < length bs"
  by (auto simp: ReadByte_def split: list.splits)

lemma ReadFull_length: "ReadFull n bs = Inr (v, rest) \<Longrightarrow> length rest \<le> length bs"
  by (auto simp: ReadFull_def split: if_splits)

lemma ret_length: "ret x bs = Inr (v, rest) \<Longrightarrow> length rest \<le> length bs"
  by (simp add: ret_def)

lemma readLengthEncoded_length:
  "readLengthEncoded bs = Inr (v, rest) \<Longrightarrow> length rest \<le> length bs"
  unfolding readLengthEncoded_def
  by (erule seq_Inr_length[rotated 2])
     (auto simp: fail_def dest!: ReadByte_length ret_length
           elim!: seq_Inr_length[rotated 2] split: if_splits)

lemma readString_length: "readString bs = Inr (v, rest) \<Longrightarrow> length rest \<le> length bs"
  unfolding readString_def
  by (erule seq_Inr_length[rotated 2])
     (auto dest!: readLengthEncoded_length ReadFull_length ret_length
           elim!: seq_Inr_length[rotated 2])

text \<open>
  \<open>readMetadata\<close>: the loop peeks at the next byte and stops, without reading it, at
  the DB section marker; \<open>metadata\<close> is the map filled so far.
\<close>

function readMetadata :: "(string \<rightharpoonup> metadata_value) \<Rightarrow> (string \<rightharpoonup> metadata_value) reader" where
  "readMetadata metadata bs =
     (case bs of
        [] \<Rightarrow> Inl io_EOF
      | b # rest \<Rightarrow>
          if b = DB_SECTION then Inr (metadata, bs)
          else if b \<noteq> METADATA_SECTION then Inl (ErrExpectedMetadataMarker b)
          else (case readString rest of
                  Inl e \<Rightarrow> Inl e
                | Inr (key, rest1) \<Rightarrow>
                    if key = ''redis-ver'' then
                      (case readString rest1 of
                         Inl e \<Rightarrow> Inl e
                       | Inr (val, rest2) \<Rightarrow> readMetadata (metadata(key \<mapsto> MetaString val)) rest2)
                    else if key = ''redis-bits'' then
                      (case ReadFull 2 rest1 of
                         Inl e \<Rightarrow> Inl e
                       | Inr (buf, rest2) \<Rightarrow>
                           readMetadata (metadata(key \<mapsto> MetaUint16 (Uint16 buf))) rest2)
                    else
                      (case readString rest1 of
                         Inl e \<Rightarrow> Inl e
                       | Inr (val, rest2) \<Rightarrow> readMetadata (metadata(key \<mapsto> MetaString val)) rest2)))"
  by pat_completeness auto
termination
proof (relation "measure (\<lambda>(metadata, bs). length bs)")
  show "wf (measure (\<lambda>(metadata, bs). length bs))" by simp
qed (auto dest!: readString_length ReadFull_length)

declare readMetadata.simps [simp del]

text \<open>
  The loop \<open>for range int(kvCount)\<close> of \<open>readRDBFile\<close>: an entry whose key comes
  back empty is skipped.
\<close>

fun readKeyValues :: "time \<Rightarrow> nat \<Rightarrow> (string \<rightharpoonup> KeyValue) \<Rightarrow> (string \<rightharpoonup> KeyValue) reader" where
  "readKeyValues now 0 keyValues bs = Inr (keyValues, bs)"
| "readKeyValues now (Suc n) keyValues bs =
     (case readKeyValue now bs of
        Inl e \<Rightarrow> Inl e
      | Inr ((key, value), rest) \<Rightarrow>
          readKeyValues now n
            (if key = [] then keyValues
             else keyValues(key \<mapsto> \<lparr>kv_value = value, kv_expiry = None\<rparr>))
            rest)"

text \<open>What \<open>readRDBFile\<close> does with the reader once the file is open and not empty.\<close>

definition readRDB :: "time \<Rightarrow> (string \<rightharpoonup> KeyValue) reader" where
  "readRDB now =
     seq verifyHeader (\<lambda>_.
     seq (readMetadata Map.empty) (\<lambda>_.
     seq ReadByte (\<lambda>b.
       if b \<noteq> DB_SECTION then fail (ErrExpectedDBSection b) else
     seq ReadByte (\<lambda>_.
     seq ReadByte (\<lambda>hashtableMarker.
       if hashtableMarker \<noteq> HASHTABLE_SIZE then fail (ErrExpectedHashtableSize hashtableMarker) else
     seq ReadByte (\<lambda>kvCount.
     seq ReadByte (\<lambda>_.
     seq (readKeyValues now (unat kvCount) Map.empty) (\<lambda>keyValues.
     seq ReadByte (\<lambda>eofMarker.
       if eofMarker \<noteq> EOF then fail (ErrExpectedEOF eofMarker) else
     seq (ReadFull 8) (\<lambda>checksumBytes.
     ret keyValues))))))))))"

section \<open>Server state and the operating system\<close>

text \<open>
  The shared state: the map \<open>SETs\<close> of handler.go, and the file at the snapshot path
  \<open>dir + "/" + dbfilename\<close>, which is \<open>None\<close> when it does not exist and its
  content otherwise.
\<close>

record server =
  SETs :: "string \<rightharpoonup> KeyValue"
  rdb_file :: "byte list option"

text \<open>
  Whether the calls to the operating system succeed is a parameter of a handler call:
  \<open>OpenFile_ok\<close> for \<open>os.OpenFile\<close> in \<open>initRDB\<close>, \<open>Checksum_ok\<close> for the
  reading in \<open>calculateCRC64Checksum\<close>, \<open>Open_ok\<close> for \<open>os.Open\<close> and
  \<open>file.Stat\<close> on an existing file in \<open>readRDBFile\<close>.
\<close>

record os_calls =
  OpenFile_ok :: bool
  Checksum_ok :: bool
  Open_ok :: bool

text \<open>
  \<open>initRDB\<close>: nothing happens when the file cannot be opened; otherwise the file is
  truncated and rewritten, and the checksum of what was flushed is appended unless
  computing it fails. \<open>ks\<close> is the order in which \<open>range SETs\<close> visits the keys.
\<close>

definition initRDB :: "os_calls \<Rightarrow> string list \<Rightarrow> server \<Rightarrow> server" where
  "initRDB os ks s =
     (if \<not> OpenFile_ok os then s
      else if \<not> Checksum_ok os then s\<lparr>rdb_file := Some (rdb_body ks (SETs s))\<rparr>
      else s\<lparr>rdb_file :=
             Some (rdb_body ks (SETs s) @ calculateCRC64Checksum (rdb_body ks (SETs s)))\<rparr>)"

text \<open>\<open>readRDBFile\<close>: open the file, refuse an empty one, parse the rest.\<close>

definition readRDBFile ::
  "os_calls \<Rightarrow> time \<Rightarrow> byte list option \<Rightarrow> error + (string \<rightharpoonup> KeyValue)" where
  "readRDBFile os now file =
     (case file of
        None \<Rightarrow> Inl ErrOpen
      | Some content \<Rightarrow>
          if \<not> Open_ok os then Inl ErrOpen
          else if length content = 0 then Inl ErrEmptyFile
          else (case readRDB now content of
                  Inl e \<Rightarrow> Inl e
                | Inr (keyValues, _) \<Rightarrow> Inr keyValues))"

section \<open>Command handlers\<close>

text \<open>
  Modelled from the spec: the \<open>Value\<close> struct of the wire protocol is declared in a
  file that is not among the sources. The handlers use its fields \<open>typ\<close> (named \<open>typ'\<close> here),
  \<open>str\<close>, \<open>bulk\<close> and \<open>array\<close>; a field left out of a composite literal has its zero
  value, the empty string or the nil slice.
\<close>

datatype Value = Value (typ': string) (str: string) (bulk: string) (array: "Value list")

text \<open>
  Indexing a slice out of range panics. A handler returns the panic or its reply,
  and the state it leaves.
\<close>

datatype panic = IndexOutOfRange

type_synonym reply = "panic + Value"

definition ping :: "Value list \<Rightarrow> reply" where
  "ping args =
     (case args of
        [] \<Rightarrow> Inr (Value ''string'' ''PONG'' [] [])
      | a0 # _ \<Rightarrow> Inr (Value ''string'' (bulk a0) [] []))"

definition echo :: "Value list \<Rightarrow> reply" where
  "echo args =
     (case args of
        [] \<Rightarrow> Inl IndexOutOfRange
      | a0 # _ \<Rightarrow> Inr (Value ''string'' (bulk a0) [] []))"

text \<open>
  \<open>strconv.Atoi\<close> with its error dropped, as \<open>set\<close> calls it. \<open>ParseUint\<close> is
  the loop of \<open>strconv.ParseUint\<close> in base 10 for 64 bits, entered with the value
  read so far: it stops with a syntax error (\<open>None\<close>) at the first byte that is not a
  digit, and with the largest value, 2^64 - 1, at the first digit that takes the value
  out of range, whatever follows. \<open>Atoi\<close> takes the sign off, returns 0 for a syntax error
  and for no digits, and the nearest of -2^63 and 2^63 - 1 for a number out of range. (The short
  path of \<open>Atoi\<close> for fewer than 19 bytes computes the same: no value overflows there.)
\<close>

definition is_digit :: "char \<Rightarrow> bool" where
  "is_digit ch = (48 \<le> (of_char ch :: nat) \<and> (of_char ch :: nat) \<le> 57)"

fun ParseUint :: "int \<Rightarrow> string \<Rightarrow> int option" where
  "ParseUint n [] = Some n"
| "ParseUint n (c # s) =
     (if \<not> is_digit c then None
      else if n \<ge> 18446744073709551615 div 10 + 1 then Some 18446744073709551615
      else if n * 10 + (of_char c - 48) > 18446744073709551615 then Some 18446744073709551615
      else ParseUint (n * 10 + (of_char c - 48)) s)"

definition Atoi :: "string \<Rightarrow> int" where
  "Atoi s0 =
     (let neg = (case s0 of [] \<Rightarrow> False | c # _ \<Rightarrow> c = CHR ''-'');
          s = (case s0 of [] \<Rightarrow> [] | c # r \<Rightarrow> if c = CHR ''-'' \<or> c = CHR ''+'' then r else s0)
      in if s = [] then 0
         else (case ParseUint 0 s of
                 None \<Rightarrow> 0
               | Some un \<Rightarrow>
                   if \<not> neg \<and> un \<ge> 9223372036854775808 then 9223372036854775807
                   else if neg \<and> un > 9223372036854775808 then - 9223372036854775808
                   else if neg then - un
                   else un))"

text \<open>\<open>time.Duration(v) * time.Millisecond\<close>, a 64-bit product, in nanoseconds.\<close>

definition Milliseconds :: "int \<Rightarrow> int" where
  "Milliseconds v = sint (word_of_int v * 1000000 :: 64 word)"

text \<open>
  \<open>set\<close>, named \<open>set_cmd\<close> here: with more than two arguments it reads
  \<open>args[2]\<close> and \<open>args[3]\<close>, so it panics on exactly three. \<open>now\<close> is what
  \<open>time.Now()\<close> returns.
\<close>

definition set_cmd :: "time \<Rightarrow> Value list \<Rightarrow> server \<Rightarrow> reply \<times> server" where
  "set_cmd now args s =
     (if length args < 2
      then (Inr (Value ''error'' ''ERR wrong number of arguments for 'set' command'' [] []), s)
      else
        let key = bulk (args ! 0); value = bulk (args ! 1) in
        if length args > 2 then
          if length args \<le> 3 then (Inl IndexOutOfRange, s)
          else
            let exKey = bulk (args ! 2);
                v = Atoi (bulk (args ! 3));
                exValue = (if exKey = ''px'' then Some (now + Milliseconds v) else None);
                s1 = s\<lparr>SETs := (SETs s)(key \<mapsto> \<lparr>kv_value = value, kv_expiry = None\<rparr>)\<rparr>
            in (Inr (Value ''string'' ''OK'' [] []),
                s1\<lparr>SETs := (SETs s1)(key \<mapsto> \<lparr>kv_value = value, kv_expiry = exValue\<rparr>)\<rparr>)
        else
          (Inr (Value ''string'' ''OK'' [] []),
           s\<lparr>SETs := (SETs s)(key \<mapsto> \<lparr>kv_value = value, kv_expiry = None\<rparr>)\<rparr>))"

text \<open>
  \<open>get\<close>: \<open>ks\<close> is the order of \<open>range SETs\<close> should \<open>initRDB\<close> run, \<open>now\<close>
  the clock during the call. \<open>get_memory\<close> is the branch that looks in \<open>SETs\<close>.
\<close>

definition get_memory :: "time \<Rightarrow> string \<Rightarrow> server \<Rightarrow> reply \<times> server" where
  "get_memory now key s =
     (let val = fst (map_index (SETs s) key) in
      if kv_value val = [] then (Inr (Value ''null'' [] [] []), s)
      else
        (case kv_expiry val of
           None \<Rightarrow> (Inr (Value ''bulk'' [] (kv_value val) []), s)
         | Some expiry \<Rightarrow>
             if After now expiry
             then (Inr (Value ''null'' [] [] []), s\<lparr>SETs := (SETs s)(key := None)\<rparr>)
             else (Inr (Value ''bulk'' [] (kv_value val) []), s)))"

definition get :: "os_calls \<Rightarrow> string list \<Rightarrow> time \<Rightarrow> Value list \<Rightarrow> server \<Rightarrow> reply \<times> server" where
  "get os ks now args s =
     (case args of
        [] \<Rightarrow> (Inl IndexOutOfRange, s)
      | a0 # _ \<Rightarrow>
          let key = bulk a0;
              s1 = (if rdb_file s = None then initRDB os ks s else s)
          in (case readRDBFile os now (rdb_file s1) of
                Inl err \<Rightarrow> (Inr (Value ''error'' ''ERR unable to read file'' [] []), s1)
              | Inr data \<Rightarrow>
                  let (kv, exists) = map_index data key in
                  if \<not> exists \<or> kv_value kv = [] then get_memory now key s1
                  else (Inr (Value ''bulk'' [] (kv_value kv) []), s1)))"

definition save :: "os_calls \<Rightarrow> string list \<Rightarrow> Value list \<Rightarrow> server \<Rightarrow> reply \<times> server" where
  "save os ks args s = (Inr (Value ''string'' ''OK'' [] []), initRDB os ks s)"

text \<open>\<open>strings.Contains(s, substr)\<close>: \<open>substr\<close> starts at some position of \<open>s\<close>.\<close>

fun Contains :: "string \<Rightarrow> string \<Rightarrow> bool" where
  "Contains [] substr = (substr = [])"
| "Contains (c # s) substr = (take (length substr) (c # s) = substr \<or> Contains s substr)"

text \<open>
  \<open>for key := range data\<close> visits each key of the map \<open>data\<close> once. The order is
  the runtime's choice and is taken from the list \<open>ks\<close>: the keys of \<open>data\<close> are
  visited in the order they have in \<open>ks\<close>. (A list that leaves out a key of the map
  is not an order the runtime can choose.)
\<close>

definition range_over :: "(string \<rightharpoonup> KeyValue) \<Rightarrow> string list \<Rightarrow> string list" where
  "range_over data ks = filter (\<lambda>key. data key \<noteq> None) (remdups ks)"

text \<open>The body of the loop of \<open>keys\<close>, run over the keys visited; \<open>keys\<close> is the slice appended to.\<close>

fun keys_range :: "Value \<Rightarrow> string list \<Rightarrow> Value list \<Rightarrow> Value list" where
  "keys_range pattern [] keys = keys"
| "keys_range pattern (key # ks) keys =
     keys_range pattern ks
       (if bulk pattern \<noteq> ''*''
        then (if Contains key (bulk pattern) then keys @ [Value ''string'' key [] []] else keys)
        else keys @ [Value ''string'' key [] []])"

definition keys :: "os_calls \<Rightarrow> string list \<Rightarrow> time \<Rightarrow> Value list \<Rightarrow> server \<Rightarrow> reply \<times> server" where
  "keys os ks now args s =
     (case args of
        [] \<Rightarrow> (Inl IndexOutOfRange, s)
      | pattern # _ \<Rightarrow>
          (case readRDBFile os now (rdb_file s) of
             Inl err \<Rightarrow> (Inr (Value ''error'' ''ERR unable to read file'' [] []), s)
           | Inr data \<Rightarrow>
               (Inr (Value ''array'' [] [] (keys_range pattern (range_over data ks) [])), s)))"

section \<open>Notions used to state and prove the claims\<close>

text \<open>
  \<open>reads p pre v\<close>: on every input that starts with \<open>pre\<close>, the reader \<open>p\<close>
  consumes exactly \<open>pre\<close> and returns \<open>v\<close>. A reader is local when each of its
  successful runs is of this kind, so that its result depends only on the bytes it
  consumed.
\<close>

definition reads :: "'a reader \<Rightarrow> byte list \<Rightarrow> 'a \<Rightarrow> bool" where
  "reads p pre v = (\<forall>rest. p (pre @ rest) = Inr (v, rest))"

definition local_reader :: "'a reader \<Rightarrow> bool" where
  "local_reader p = (\<forall>bs v rest. p bs = Inr (v, rest) \<longrightarrow> (\<exists>pre. bs = pre @ rest \<and> reads p pre v))"

text \<open>
  \<open>readMetadata\<close> looks one byte ahead, so it is local only together with the read
  of the DB section marker that follows it in \<open>readRDBFile\<close>: \<open>metadata_then md k\<close>
  is \<open>readMetadata\<close>, that read, and then \<open>k\<close>; \<open>metadata_entry\<close> is one round of
  the loop after its marker.
\<close>

definition metadata_then :: "(string \<rightharpoonup> metadata_value) \<Rightarrow> 'a reader \<Rightarrow> 'a reader" where
  "metadata_then md k =
     seq (readMetadata md) (\<lambda>_. seq ReadByte (\<lambda>b.
       if b \<noteq> DB_SECTION then fail (ErrExpectedDBSection b) else k))"

definition metadata_entry :: "(string \<rightharpoonup> metadata_value) \<Rightarrow> 'a reader \<Rightarrow> 'a reader" where
  "metadata_entry md k =
     seq readString (\<lambda>key.
       if key = ''redis-ver''
       then seq readString (\<lambda>val. metadata_then (md(key \<mapsto> MetaString val)) k)
       else if key = ''redis-bits''
       then seq (ReadFull 2) (\<lambda>buf. metadata_then (md(key \<mapsto> MetaUint16 (Uint16 buf))) k)
       else seq readString (\<lambda>val. metadata_then (md(key \<mapsto> MetaString val)) k))"

text \<open>\<open>readRDB\<close> up to the end marker, followed by \<open>K\<close> in place of the checksum read.\<close>

definition readRDB_k :: "time \<Rightarrow> ((string \<rightharpoonup> KeyValue) \<Rightarrow> 'a reader) \<Rightarrow> 'a reader" where
  "readRDB_k now K =
     seq verifyHeader (\<lambda>_.
     metadata_then Map.empty (
     seq ReadByte (\<lambda>_.
     seq ReadByte (\<lambda>hashtableMarker.
       if hashtableMarker \<noteq> HASHTABLE_SIZE then fail (ErrExpectedHashtableSize hashtableMarker) else
     seq ReadByte (\<lambda>kvCount.
     seq ReadByte (\<lambda>_.
     seq (readKeyValues now (unat kvCount) Map.empty) (\<lambda>keyValues.
     seq ReadByte (\<lambda>eofMarker.
       if eofMarker \<noteq> EOF then fail (ErrExpectedEOF eofMarker) else
     K keyValues))))))))"

text \<open>
  The expiry that comes back from the file: the instant is written as a 64-bit count of
  milliseconds, so it is rounded down to the millisecond. An entry is expired on load
  when the clock at load time is after that instant.
\<close>

definition stored_expiry :: "time \<Rightarrow> time" where
  "stored_expiry expire = time_UnixMilli (sint (word_of_int (UnixMilli expire) :: 64 word))"

definition expired_on_load :: "time \<Rightarrow> KeyValue \<Rightarrow> bool" where
  "expired_on_load now v =
     (case kv_expiry v of None \<Rightarrow> False | Some expire \<Rightarrow> After now (stored_expiry expire))"

text \<open>
  One round of the loop of \<open>readRDBFile\<close> on the entry the encoder wrote for \<open>key\<close>;
  \<open>fits\<close>: the key is in the store and the lengths of key and value can be encoded;
  \<open>loaded now store\<close>: the map \<open>readRDBFile\<close> returns at time \<open>now\<close> for the
  snapshot of \<open>store\<close>.
\<close>

definition load_entry :: "time \<Rightarrow> (string \<rightharpoonup> KeyValue) \<Rightarrow> string \<Rightarrow> (string \<rightharpoonup> KeyValue) \<Rightarrow> (string \<rightharpoonup> KeyValue)" where
  "load_entry now store key kvs =
     (case store key of
        None \<Rightarrow> kvs
      | Some v \<Rightarrow>
          if expired_on_load now v \<or> key = [] then kvs
          else kvs(key \<mapsto> \<lparr>kv_value = kv_value v, kv_expiry = None\<rparr>))"

definition fits :: "(string \<rightharpoonup> KeyValue) \<Rightarrow> string \<Rightarrow> bool" where
  "fits store key =
     (case store key of
        None \<Rightarrow> False
      | Some v \<Rightarrow> length key < 16384 \<and> length (kv_value v) < 16384)"

definition loaded :: "time \<Rightarrow> (string \<rightharpoonup> KeyValue) \<Rightarrow> (string \<rightharpoonup> KeyValue)" where
  "loaded now store key =
     (case store key of
        None \<Rightarrow> None
      | Some v \<Rightarrow>
          if expired_on_load now v \<or> key = [] then None
          else Some \<lparr>kv_value = kv_value v, kv_expiry = None\<rparr>)"


text \<open>
  The state once \<open>get\<close> has made sure the snapshot file exists, and what it means
  for \<open>get\<close> that a map has nothing for a key: no entry, or an entry with the empty
  value.
\<close>

definition resolve_snapshot :: "os_calls \<Rightarrow> string list \<Rightarrow> server \<Rightarrow> server" where
  "resolve_snapshot os ks s = (if rdb_file s = None then initRDB os ks s else s)"

definition empty_or_absent :: "(string \<rightharpoonup> KeyValue) \<Rightarrow> string \<Rightarrow> bool" where
  "empty_or_absent m key = (case m key of None \<Rightarrow> True | Some v \<Rightarrow> kv_value v = [])"

text \<open>
  A store too large for the one-byte entry count: the 256 keys of one byte, each bound
  to the same value with no expiry.
\<close>

definition one_byte_keys :: "string list" where
  "one_byte_keys = map (\<lambda>n. [char_of n]) [0..<256]"

definition one_byte_store :: "string \<rightharpoonup> KeyValue" where
  "one_byte_store key =
     (if length key = 1 then Some \<lparr>kv_value = ''v'', kv_expiry = None\<rparr> else None)"

section \<open>Readers consume a prefix of their input\<close>

lemma readsD: "reads p pre v \<Longrightarrow> p (pre @ rest) = Inr (v, rest)"
  by (simp add: reads_def)

lemma reads_ret: "reads (ret v) [] v"
  by (simp add: reads_def ret_def)

lemma reads_seq:
  assumes "reads p pre v" and "reads (f v) pre' w"
  shows "reads (seq p f) (pre @ pre') w"
  using assms by (simp add: reads_def seq_def)

lemma reads_ReadByte: "reads ReadByte [b] b"
  by (simp add: reads_def ReadByte_def)

lemma reads_ReadFull: "length bs = n \<Longrightarrow> reads (ReadFull n) bs bs"
  by (auto simp: reads_def ReadFull_def)

lemma seq_Inr_iff:
  "seq p f bs = Inr r \<longleftrightarrow> (\<exists>v mid. p bs = Inr (v, mid) \<and> f v mid = Inr r)"
  by (auto simp: seq_def split: sum.splits)

lemma local_ret: "local_reader (ret v)"
  by (auto simp: local_reader_def ret_def reads_def)

lemma local_fail: "local_reader (fail e)"
  by (simp add: local_reader_def fail_def)

lemma local_readerD:
  "local_reader p \<Longrightarrow> p bs = Inr (v, rest) \<Longrightarrow> \<exists>pre. bs = pre @ rest \<and> reads p pre v"
  unfolding local_reader_def by blast

lemma local_seq:
  assumes p: "local_reader p" and f: "\<And>x. local_reader (f x)"
  shows "local_reader (seq p f)"
  unfolding local_reader_def
proof (intro allI impI)
  fix bs w rest
  assume "seq p f bs = Inr (w, rest)"
  then obtain v mid where pv: "p bs = Inr (v, mid)" and fv: "f v mid = Inr (w, rest)"
    by (auto simp: seq_Inr_iff)
  from local_readerD[OF p pv] obtain pre where pre: "bs = pre @ mid" "reads p pre v"
    by blast
  from local_readerD[OF f fv] obtain pre' where pre': "mid = pre' @ rest" "reads (f v) pre' w"
    by blast
  from reads_seq[of p pre v f pre' w] pre pre'
  show "\<exists>q. bs = q @ rest \<and> reads (seq p f) q w"
    by (intro exI[of _ "pre @ pre'"]) simp
qed

lemma local_if:
  "local_reader p \<Longrightarrow> local_reader q \<Longrightarrow> local_reader (if c then p else q)"
  by simp

lemma local_ReadByte: "local_reader ReadByte"
  by (auto simp: local_reader_def ReadByte_def reads_def split: list.splits)

lemma local_ReadFull: "local_reader (ReadFull n)"
  unfolding local_reader_def
proof (intro allI impI)
  fix bs v rest
  assume a: "ReadFull n bs = Inr (v, rest)"
  show "\<exists>pre. bs = pre @ rest \<and> reads (ReadFull n) pre v"
  proof (cases "n = 0")
    case True
    with a show ?thesis by (auto simp: ReadFull_def reads_def)
  next
    case False
    with a have "v = take n bs" "rest = drop n bs" "n \<le> length bs"
      by (auto simp: ReadFull_def split: if_splits)
    then have "bs = v @ rest" "length v = n" by simp_all
    with reads_ReadFull[of v n] show ?thesis by blast
  qed
qed

lemmas local_intros = local_seq local_ret local_fail local_if local_ReadByte local_ReadFull

lemma local_verifyHeader: "local_reader verifyHeader"
  unfolding verifyHeader_def by (intro local_intros)

lemma local_readLengthEncoded: "local_reader readLengthEncoded"
  unfolding readLengthEncoded_def by (intro local_intros)

lemma local_readString: "local_reader readString"
  unfolding readString_def by (intro local_intros local_readLengthEncoded)

lemma local_readTimestamp: "local_reader readTimestamp"
  unfolding readTimestamp_def by (intro local_intros)

lemma local_readKeyValue_tail: "local_reader (readKeyValue_tail t)"
  unfolding readKeyValue_tail_def by (intro local_intros local_readString)

lemma local_readKeyValue: "local_reader (readKeyValue now)"
  unfolding readKeyValue_def
  by (intro local_intros local_readString local_readTimestamp local_readKeyValue_tail)

lemma local_readKeyValues: "local_reader (readKeyValues now n kvs)"
proof (induction n arbitrary: kvs)
  case 0
  have "readKeyValues now 0 kvs = ret kvs" by (rule ext) (simp add: ret_def)
  then show ?case by (simp add: local_ret)
next
  case (Suc n)
  have "readKeyValues now (Suc n) kvs =
    seq (readKeyValue now) (\<lambda>(key, value). readKeyValues now n
            (if key = [] then kvs
             else kvs(key \<mapsto> \<lparr>kv_value = value, kv_expiry = None\<rparr>)))"
    by (rule ext) (simp add: seq_def split: sum.splits prod.splits)
  then show ?case
    using Suc by (auto intro!: local_seq local_readKeyValue)
qed

lemma readMetadata_Nil: "readMetadata md [] = Inl io_EOF"
  by (subst readMetadata.simps) simp

lemma metadata_then_Nil: "metadata_then md k [] = Inl io_EOF"
  by (simp add: metadata_then_def seq_def readMetadata_Nil)

lemma metadata_then_Cons:
  "metadata_then md k (b # tl0) =
     (if b = DB_SECTION then k tl0
      else if b \<noteq> METADATA_SECTION then Inl (ErrExpectedMetadataMarker b)
      else metadata_entry md k tl0)"
  unfolding metadata_then_def metadata_entry_def
  apply (subst seq_def)
  apply (subst readMetadata.simps)
  apply (simp add: seq_def ReadByte_def fail_def split: sum.splits prod.splits)
  done

lemma seq_local_step:
  assumes p: "local_reader p"
    and run: "seq p f bs = Inr (w, rest)"
    and f: "\<And>x mid. length mid \<le> length bs \<Longrightarrow> f x mid = Inr (w, rest) \<Longrightarrow>
              \<exists>pre. mid = pre @ rest \<and> reads (f x) pre w"
  shows "\<exists>pre. bs = pre @ rest \<and> reads (seq p f) pre w"
proof -
  from run obtain v mid where pv: "p bs = Inr (v, mid)" and fv: "f v mid = Inr (w, rest)"
    by (auto simp: seq_Inr_iff)
  from local_readerD[OF p pv] obtain pre where pre: "bs = pre @ mid" "reads p pre v"
    by blast
  then have "length mid \<le> length bs" by simp
  from f[OF this fv] obtain pre' where pre': "mid = pre' @ rest" "reads (f v) pre' w"
    by blast
  from reads_seq[of p pre v f pre' w] pre pre'
  show ?thesis by (intro exI[of _ "pre @ pre'"]) simp
qed

lemma local_metadata_then_aux:
  assumes k: "local_reader k"
  shows "metadata_then md k bs = Inr (w, rest) \<Longrightarrow>
         \<exists>pre. bs = pre @ rest \<and> reads (metadata_then md k) pre w"
proof (induction "length bs" arbitrary: bs md rule: less_induct)
  case less
  show ?case
  proof (cases bs)
    case Nil
    with less.prems show ?thesis by (simp add: metadata_then_Nil)
  next
    case (Cons b tl0)
    have IH: "\<And>md' mid. length mid \<le> length tl0 \<Longrightarrow> metadata_then md' k mid = Inr (w, rest)
        \<Longrightarrow> \<exists>pre. mid = pre @ rest \<and> reads (metadata_then md' k) pre w"
      using less.hyps Cons by simp
    have lift: "\<exists>pre. bs = pre @ rest \<and> reads (metadata_then md k) pre w"
      if "\<exists>pre. tl0 = pre @ rest \<and> reads (if b = DB_SECTION then k else metadata_entry md k) pre w"
        and "b = DB_SECTION \<or> b = METADATA_SECTION"
    proof -
      from that(1) obtain pre where pre: "tl0 = pre @ rest"
        "reads (if b = DB_SECTION then k else metadata_entry md k) pre w" by blast
      have "reads (metadata_then md k) (b # pre) w"
        unfolding reads_def
      proof (intro allI)
        fix ys
        from pre(2) have "(if b = DB_SECTION then k else metadata_entry md k) (pre @ ys) = Inr (w, ys)"
          by (rule readsD)
        with that(2) show "metadata_then md k ((b # pre) @ ys) = Inr (w, ys)"
          by (cases "b = DB_SECTION") (simp_all add: metadata_then_Cons)
      qed
      with pre(1) Cons show ?thesis by (intro exI[of _ "b # pre"]) simp
    qed
    show ?thesis
    proof (cases "b = DB_SECTION")
      case True
      with less.prems Cons have "k tl0 = Inr (w, rest)" by (simp add: metadata_then_Cons)
      from local_readerD[OF k this] True have "\<exists>pre. tl0 = pre @ rest \<and>
          reads (if b = DB_SECTION then k else metadata_entry md k) pre w" by simp
      from lift[OF this] True show ?thesis by blast
    next
      case False
      with less.prems Cons have m: "b = METADATA_SECTION" and
        run: "metadata_entry md k tl0 = Inr (w, rest)"
        by (auto simp: metadata_then_Cons split: if_splits)
      have "\<exists>pre. tl0 = pre @ rest \<and> reads (metadata_entry md k) pre w"
        unfolding metadata_entry_def
      proof (rule seq_local_step[OF local_readString run[unfolded metadata_entry_def]])
        fix key :: string and mid :: "byte list"
        assume len: "length mid \<le> length tl0"
        let ?body = "\<lambda>key. if key = ''redis-ver''
           then seq readString (\<lambda>val. metadata_then (md(key \<mapsto> MetaString val)) k)
           else if key = ''redis-bits''
           then seq (ReadFull 2) (\<lambda>buf. metadata_then (md(key \<mapsto> MetaUint16 (Uint16 buf))) k)
           else seq readString (\<lambda>val. metadata_then (md(key \<mapsto> MetaString val)) k)"
        assume b: "?body key mid = Inr (w, rest)"
        have inner: "\<And>md' x mid'. length mid' \<le> length mid \<Longrightarrow> metadata_then md' k mid' = Inr (w, rest)
          \<Longrightarrow> \<exists>pre. mid' = pre @ rest \<and> reads (metadata_then md' k) pre w"
          using IH len by simp
        show "\<exists>pre. mid = pre @ rest \<and> reads (?body key) pre w"
        proof (cases "key = ''redis-ver''")
          case True
          with b have "seq readString (\<lambda>val. metadata_then (md(key \<mapsto> MetaString val)) k) mid = Inr (w, rest)"
            by simp
          from seq_local_step[OF local_readString this inner] True show ?thesis by simp
        next
          case nv: False
          show ?thesis
          proof (cases "key = ''redis-bits''")
            case True
            with b nv have "seq (ReadFull 2) (\<lambda>buf. metadata_then (md(key \<mapsto> MetaUint16 (Uint16 buf))) k) mid = Inr (w, rest)"
              by simp
            from seq_local_step[OF local_ReadFull this inner] True nv show ?thesis by simp
          next
            case False
            with b nv have "seq readString (\<lambda>val. metadata_then (md(key \<mapsto> MetaString val)) k) mid = Inr (w, rest)"
              by simp
            from seq_local_step[OF local_readString this inner] False nv show ?thesis by simp
          qed
        qed
      qed
      with False have "\<exists>pre. tl0 = pre @ rest \<and>
          reads (if b = DB_SECTION then k else metadata_entry md k) pre w" by simp
      from lift[OF this] m show ?thesis by blast
    qed
  qed
qed

lemma local_metadata_then:
  assumes "local_reader k"
  shows "local_reader (metadata_then md k)"
  unfolding local_reader_def
proof (intro allI impI)
  fix bs v rest
  assume "metadata_then md k bs = Inr (v, rest)"
  from local_metadata_then_aux[OF assms this]
  show "\<exists>pre. bs = pre @ rest \<and> reads (metadata_then md k) pre v" .
qed

lemma readRDB_eq: "readRDB now = readRDB_k now (\<lambda>keyValues. seq (ReadFull 8) (\<lambda>checksumBytes. ret keyValues))"
  by (simp add: readRDB_def readRDB_k_def metadata_then_def)

lemma local_readRDB_k: "(\<And>kv. local_reader (K kv)) \<Longrightarrow> local_reader (readRDB_k now K)"
  unfolding readRDB_k_def
  by (intro local_intros local_verifyHeader local_metadata_then local_readKeyValues)

lemma seq_assoc: "seq (seq p f) g = seq p (\<lambda>x. seq (f x) g)"
  by (rule ext) (simp add: seq_def split: sum.splits prod.splits)

lemma seq_fail_left: "seq (fail e) g = fail e"
  by (rule ext) (simp add: seq_def fail_def)

lemma seq_ret_left: "seq (ret v) g = g v"
  by (rule ext) (simp add: seq_def ret_def)

lemma seq_if: "seq (if c then p else q) g = (if c then seq p g else seq q g)"
  by simp

lemma readRDB_k_seq: "readRDB_k now K = seq (readRDB_k now ret) K"
  by (simp add: readRDB_k_def metadata_then_def seq_assoc seq_fail_left seq_ret_left seq_if cong: if_cong)

section \<open>Decoding what the encoder wrote\<close>

lemma string_of_bytes_of: "string_of (bytes_of s) = s"
  by (induction s) (simp_all add: string_of_def bytes_of_def char_of_byte_def byte_of_char_def unat_of_nat)

lemma length_bytes_of: "length (bytes_of s) = length s"
  by (simp add: bytes_of_def)

lemma six_bit_bytes:
  "\<forall>q\<in>{0..<64::nat}. drop_bit 6 (of_nat q :: byte) = 0
      \<and> drop_bit 6 (of_nat q OR 0x40 :: byte) = 1
      \<and> (of_nat q OR 0x40 :: byte) AND 0x3F = of_nat q"
  by code_simp

lemma short_byte:
  assumes "0 \<le> q" "q < 64"
  shows "drop_bit 6 (word_of_int q :: byte) = 0"
    and "drop_bit 6 (word_of_int q OR 0x40 :: byte) = 1"
    and "(word_of_int q OR 0x40 :: byte) AND 0x3F = word_of_int q"
    and "uint (word_of_int q :: byte) = q"
proof -
  have "nat q \<in> {0..<64}" using assms by auto
  from bspec[OF six_bit_bytes this]
  have *: "drop_bit 6 (of_nat (nat q) :: byte) = 0"
    "drop_bit 6 (of_nat (nat q) OR 0x40 :: byte) = 1"
    "(of_nat (nat q) OR 0x40 :: byte) AND 0x3F = of_nat (nat q)"
    by blast+
  have w: "(word_of_int q :: byte) = of_nat (nat q)"
    using assms(1) by (rule word_of_int_nat)
  show "drop_bit 6 (word_of_int q :: byte) = 0"
    and "drop_bit 6 (word_of_int q OR 0x40 :: byte) = 1"
    and "(word_of_int q OR 0x40 :: byte) AND 0x3F = word_of_int q"
    unfolding w by (rule *)+
  show "uint (word_of_int q :: byte) = q"
    using assms by (simp add: uint_word_of_int)
qed

lemma lengthEncoding_short:
  assumes "0 \<le> n" "n \<le> 63"
  shows "lengthEncoding n = Inr [word_of_int n]"
  using assms by (simp add: lengthEncoding_def)

lemma lengthEncoding_long:
  assumes "64 \<le> n" "n \<le> 16383"
  shows "lengthEncoding n = Inr [word_of_int (n div 256) OR 0x40, word_of_int n]"
  using assms by (simp add: lengthEncoding_def drop_bit_eq_div)

lemma lengthEncoding_fail:
  assumes "16384 \<le> n"
  shows "lengthEncoding n = Inl (ErrLengthTooLarge n)"
  using assms by (simp add: lengthEncoding_def)

lemma two_byte_value:
  assumes "0 \<le> n"
  shows "push_bit 8 (n div 256) OR uint (word_of_int n :: byte) = n"
proof -
  have "push_bit 8 (n div 256) OR uint (word_of_int n :: byte) = concat_bit 8 n (drop_bit 8 n)"
    by (simp add: concat_bit_def uint_word_of_int_eq drop_bit_eq_div or.commute)
  also have "\<dots> = n"
    by (simp add: concat_bit_eq take_bit_eq_mod push_bit_eq_mult drop_bit_eq_div)
  finally show ?thesis .
qed

lemma reads_readLengthEncoded:
  assumes "0 \<le> n" "lengthEncoding n = Inr bs"
  shows "reads readLengthEncoded bs n"
proof (cases "n \<le> 63")
  case True
  with assms have bs: "bs = [word_of_int n]" by (simp add: lengthEncoding_short)
  from assms(1) True have "n < 64" by simp
  from short_byte(1,4)[OF assms(1) this] show ?thesis
    by (simp add: bs reads_def readLengthEncoded_def seq_def ReadByte_def ret_def)
next
  case False
  with assms have n: "64 \<le> n" "n \<le> 16383"
    by (auto simp: lengthEncoding_def split: if_splits)
  with assms have bs: "bs = [word_of_int (n div 256) OR 0x40, word_of_int n]"
    by (simp add: lengthEncoding_long)
  from n have q: "0 \<le> n div 256" "n div 256 < 64" by auto
  from short_byte(2,3,4)[OF q] two_byte_value[OF assms(1)] show ?thesis
    by (simp add: bs reads_def readLengthEncoded_def seq_def ReadByte_def ret_def)
qed

lemma stringEncoding_ok:
  assumes "length s < 16384"
  shows "\<exists>bs. lengthEncoding (int (length s)) = Inr bs \<and> snd (stringEncoding s) = bs @ bytes_of s"
  using assms by (auto simp: stringEncoding_def lengthEncoding_def)

lemma ReadFull_append: "length bs = n \<Longrightarrow> ReadFull n (bs @ rest) = Inr (bs, rest)"
  by (auto simp: ReadFull_def)

lemma readString_stringEncoding:
  assumes "length s < 16384"
  shows "readString (snd (stringEncoding s) @ rest) = Inr (s, rest)"
proof -
  from stringEncoding_ok[OF assms] obtain bs where
    bs: "lengthEncoding (int (length s)) = Inr bs" "snd (stringEncoding s) = bs @ bytes_of s"
    by blast
  have "reads readLengthEncoded bs (int (length s))"
    using bs(1) by (intro reads_readLengthEncoded) simp_all
  then have "readLengthEncoded (bs @ bytes_of s @ rest) = Inr (int (length s), bytes_of s @ rest)"
    by (rule readsD)
  then show ?thesis
    by (simp add: readString_def seq_def bs(2) ReadFull_append length_bytes_of ret_def
        string_of_bytes_of)
qed

lemma Uint64_PutUint: "n \<le> 8 \<Longrightarrow> Uint64 (PutUint n v) = take_bit (8 * n) v"
proof (induction n arbitrary: v)
  case 0
  then show ?case by simp
next
  case (Suc n)
  then have IH: "Uint64 (PutUint n (drop_bit 8 v)) = take_bit (8 * n) (drop_bit 8 v)" by simp
  show ?case
    unfolding PutUint.simps Uint64.simps IH
    by (rule bit_eqI) (auto simp: bit_simps)
qed

lemma Uint64_PutUint8: "Uint64 (PutUint 8 v) = v"
  using Uint64_PutUint[of 8 v] by (simp add: take_bit_word_eq_self)

lemma length_PutUint: "length (PutUint n v) = n"
  by (induction n arbitrary: v) simp_all

lemma readTimestamp_timestampEncoding:
  "readTimestamp (timestampEncoding expire @ rest) = Inr (stored_expiry expire, rest)"
  by (simp add: readTimestamp_def timestampEncoding_def seq_def ReadFull_append length_PutUint
      ret_def Uint64_PutUint8 stored_expiry_def)

lemma readKeyValue_tail_pair:
  assumes "length key < 16384" "length val < 16384"
  shows "readKeyValue_tail STRING_TYPE (snd (stringEncoding key) @ snd (stringEncoding val) @ rest)
         = Inr ((key, val), rest)"
  using assms by (simp add: readKeyValue_tail_def seq_def readString_stringEncoding ret_def)

lemma readKeyValue_writeKeyValue:
  assumes "length key < 16384" "length (kv_value v) < 16384"
  shows "readKeyValue now (writeKeyValue key v @ rest) =
         Inr (if expired_on_load now v then ([], []) else (key, kv_value v), rest)"
proof (cases "kv_expiry v")
  case None
  have "STRING_TYPE \<noteq> KEYVALUE_EXPIRY" by (simp add: STRING_TYPE_def KEYVALUE_EXPIRY_def)
  with None assms show ?thesis
    by (simp add: readKeyValue_def writeKeyValue_def seq_def ReadByte_def expired_on_load_def
        readKeyValue_tail_pair)
next
  case (Some expire)
  with assms show ?thesis
    by (simp add: readKeyValue_def writeKeyValue_def seq_def ReadByte_def expired_on_load_def
        readKeyValue_tail_pair readTimestamp_timestampEncoding readString_stringEncoding ret_def)
qed

lemma rdb_entries_Cons:
  "store key = Some v \<Longrightarrow> rdb_entries (key # ks) store = writeKeyValue key v @ rdb_entries ks store"
  by (simp add: rdb_entries_def)

lemma readKeyValues_rdb_entries:
  assumes "list_all (fits store) ks"
  shows "readKeyValues now (length ks) kvs (rdb_entries ks store @ rest) =
         Inr (fold (load_entry now store) ks kvs, rest)"
  using assms
proof (induction ks arbitrary: kvs)
  case Nil
  then show ?case by (simp add: rdb_entries_def)
next
  case (Cons key ks)
  then obtain v where v: "store key = Some v" "length key < 16384" "length (kv_value v) < 16384"
    by (auto simp: fits_def split: option.splits)
  from Cons.prems have rest: "list_all (fits store) ks" by simp
  show ?case
    using readKeyValue_writeKeyValue[OF v(2,3), of now] Cons.IH[OF rest]
    by (simp add: rdb_entries_Cons[of store key v] load_entry_def v(1))
qed

lemma load_entry_other: "k \<noteq> a \<Longrightarrow> load_entry now store a kvs k = kvs k"
  by (simp add: load_entry_def split: option.splits)

lemma load_entry_same:
  "kvs k = kvs' k \<Longrightarrow> load_entry now store k kvs k = load_entry now store k kvs' k"
  by (simp add: load_entry_def split: option.splits)

lemma fold_load_entry_notin:
  "k \<notin> set ks \<Longrightarrow> fold (load_entry now store) ks kvs k = kvs k"
  by (induction ks arbitrary: kvs) (simp_all add: load_entry_other)

lemma fold_load_entry_in:
  assumes "distinct ks" "k \<in> set ks"
  shows "fold (load_entry now store) ks kvs k = load_entry now store k kvs k"
  using assms
proof (induction ks arbitrary: kvs)
  case Nil
  then show ?case by simp
next
  case (Cons a ks)
  show ?case
  proof (cases "a = k")
    case True
    with Cons.prems have "k \<notin> set ks" by simp
    with True show ?thesis by (simp add: fold_load_entry_notin)
  next
    case False
    with Cons have "fold (load_entry now store) ks (load_entry now store a kvs) k
      = load_entry now store k (load_entry now store a kvs) k" by simp
    also have "\<dots> = load_entry now store k kvs k"
      using False by (intro load_entry_same) (simp add: load_entry_other)
    finally show ?thesis by simp
  qed
qed

lemma fold_load_entry_loaded:
  assumes "range_order store ks"
  shows "fold (load_entry now store) ks Map.empty = loaded now store"
proof (rule ext)
  fix k
  from assms have d: "distinct ks" and s: "set ks = dom store" by (simp_all add: range_order_def)
  show "fold (load_entry now store) ks Map.empty k = loaded now store k"
  proof (cases "k \<in> set ks")
    case True
    from fold_load_entry_in[OF d True] show ?thesis
      by (simp add: load_entry_def loaded_def split: option.splits)
  next
    case False
    with s have "store k = None" by auto
    with False show ?thesis by (simp add: fold_load_entry_notin loaded_def)
  qed
qed

lemma verifyHeader_magic: "verifyHeader (bytes_of ''REDIS0011'' @ rest) = Inr ((), rest)"
  by (simp add: verifyHeader_def seq_def ReadFull_append string_of_bytes_of ret_def)

lemma markers_distinct:
  "METADATA_SECTION \<noteq> DB_SECTION" "DB_SECTION \<noteq> METADATA_SECTION"
  by (simp_all add: METADATA_SECTION_def DB_SECTION_def)

lemma metadata_then_written:
  "metadata_then md k
     ([METADATA_SECTION] @ snd (stringEncoding ''redis-ver'') @ snd (stringEncoding ''7.2.0'')
      @ [METADATA_SECTION] @ snd (stringEncoding ''redis-bits'') @ [0xc0, 0x40]
      @ [DB_SECTION] @ rest) = k rest"
proof -
  have 1: "metadata_then md' k ([DB_SECTION] @ rest) = k rest" for md'
    by (simp add: metadata_then_Cons)
  have 2: "metadata_then md' k ([METADATA_SECTION] @ snd (stringEncoding ''redis-bits'') @ [0xc0, 0x40]
      @ [DB_SECTION] @ rest) = k rest" for md'
    using 1 by (simp add: metadata_then_Cons markers_distinct metadata_entry_def seq_def
        readString_stringEncoding ReadFull_def)
  show ?thesis
    using 2 by (simp add: metadata_then_Cons markers_distinct metadata_entry_def seq_def
        readString_stringEncoding)
qed

lemma readRDB_rdb_body:
  assumes ord: "range_order store ks" and len: "length ks \<le> 255"
    and fit: "list_all (fits store) ks" and cs: "length cs = 8"
  shows "readRDB now (rdb_body ks store @ cs) = Inr (loaded now store, [])"
proof -
  from ord have "card (dom store) = length ks"
    by (metis range_order_def distinct_card)
  with len have count: "unat (of_nat (card (dom store)) :: byte) = length ks"
    by (simp add: unat_of_nat)
  have tail: "seq ReadByte (\<lambda>_. seq ReadByte (\<lambda>hashtableMarker.
       if hashtableMarker \<noteq> HASHTABLE_SIZE then fail (ErrExpectedHashtableSize hashtableMarker) else
     seq ReadByte (\<lambda>kvCount.
     seq ReadByte (\<lambda>_.
     seq (readKeyValues now (unat kvCount) Map.empty) (\<lambda>keyValues.
     seq ReadByte (\<lambda>eofMarker.
       if eofMarker \<noteq> EOF then fail (ErrExpectedEOF eofMarker) else
     seq (ReadFull 8) (\<lambda>checksumBytes. ret keyValues)))))))
     ([DB_INDEX] @ [HASHTABLE_SIZE, of_nat (card (dom store))] @ [0x00] @ rdb_entries ks store @ [EOF] @ cs)
     = Inr (loaded now store, [])"
    using readKeyValues_rdb_entries[OF fit, of now Map.empty "[EOF] @ cs"]
    by (simp add: seq_def ReadByte_def count fold_load_entry_loaded[OF ord]
        ReadFull_append[of cs 8 "[]", simplified] cs ret_def)
  show ?thesis
    unfolding readRDB_eq readRDB_k_def rdb_body_def
    by (simp only: append_assoc seq_def[of verifyHeader] verifyHeader_magic sum.case prod.case
        metadata_then_written tail)
qed

section \<open>Lemmas about loading and the handlers\<close>

lemma readKeyValues_no_empty_key:
  "readKeyValues now n kvs bs = Inr (m, rest) \<Longrightarrow> kvs [] = None \<Longrightarrow> m [] = None"
proof (induction n arbitrary: kvs bs)
  case 0
  then show ?case by simp
next
  case (Suc n)
  from Suc.prems(1) obtain key val mid where
    step: "readKeyValue now bs = Inr ((key, val), mid)"
    and run: "readKeyValues now n
        (if key = [] then kvs else kvs(key \<mapsto> \<lparr>kv_value = val, kv_expiry = None\<rparr>)) mid = Inr (m, rest)"
    by (auto split: sum.splits)
  from Suc.prems(2) have
    "(if key = [] then kvs else kvs(key \<mapsto> \<lparr>kv_value = val, kv_expiry = None\<rparr>)) [] = None"
    by simp
  from Suc.IH[OF run this] show ?case .
qed

lemma readRDB_k_no_empty_key:
  assumes "readRDB_k now K bs = Inr (r, rest)"
  shows "\<exists>m mid. m [] = None \<and> K m mid = Inr (r, rest)"
proof -
  from assms obtain kvCount m mid0 mid where
    "readKeyValues now (unat (kvCount :: byte)) Map.empty mid0 = Inr (m, mid)"
    and K: "seq ReadByte (\<lambda>eofMarker.
       if eofMarker \<noteq> EOF then fail (ErrExpectedEOF eofMarker) else K m) mid = Inr (r, rest)"
    unfolding readRDB_k_def metadata_then_def
    by (auto simp: seq_Inr_iff fail_def split: if_splits)
  from readKeyValues_no_empty_key[OF this(1)] have "m [] = None" by simp
  moreover from K obtain mid' where "K m mid' = Inr (r, rest)"
    by (auto simp: seq_Inr_iff fail_def split: if_splits)
  ultimately show ?thesis by blast
qed

lemma readRDBFile_rdb_body:
  assumes "Open_ok os" "range_order store ks" "length ks \<le> 255"
    "list_all (fits store) ks" "length cs = 8"
  shows "readRDBFile os now (Some (rdb_body ks store @ cs)) = Inr (loaded now store)"
  using readRDB_rdb_body[OF assms(2-5), of now] assms(1,5)
  by (auto simp: readRDBFile_def)

lemma readRDB_checksum_last:
  "readRDB now = seq (readRDB_k now ret) (\<lambda>keyValues. seq (ReadFull 8) (\<lambda>checksumBytes. ret keyValues))"
  by (subst readRDB_eq) (rule readRDB_k_seq)

lemma readRDB_checksum_free:
  assumes run: "readRDB now (body @ c1) = Inr (m, rest)"
    and c: "length c1 = 8" "length c2 = 8"
  shows "\<exists>rest'. readRDB now (body @ c2) = Inr (m, rest')"
proof -
  let ?K = "\<lambda>keyValues. seq (ReadFull 8) (\<lambda>checksumBytes. ret keyValues)"
  from run obtain m' mid where pre: "readRDB_k now ret (body @ c1) = Inr (m', mid)"
    and sum: "?K m' mid = Inr (m, rest)"
    unfolding readRDB_checksum_last seq_Inr_iff[of "readRDB_k now ret"] by blast
  from sum have m': "m' = m" and mid: "8 \<le> length mid"
    by (auto simp: seq_Inr_iff ret_def ReadFull_def split: if_splits)
  have "local_reader (readRDB_k now ret :: (string \<rightharpoonup> KeyValue) reader)"
    by (rule local_readRDB_k) (rule local_ret)
  from local_readerD[OF this pre] obtain p where p: "body @ c1 = p @ mid" "reads (readRDB_k now ret) p m'"
    by blast
  from arg_cong[OF p(1), of length] have "length body + length c1 = length p + length mid"
    by simp
  with mid c(1) have le: "length p \<le> length body" by simp
  from arg_cong[OF p(1), of "take (length p)"] le have "take (length p) body = p" by simp
  then have body': "body = p @ drop (length p) body"
    by (metis append_take_drop_id)
  from readsD[OF p(2), of "drop (length p) body @ c2"] m'
  have "readRDB_k now ret (p @ drop (length p) body @ c2) = Inr (m, drop (length p) body @ c2)"
    by simp
  with body' have 1: "readRDB_k now ret (body @ c2) = Inr (m, drop (length p) body @ c2)"
    by (metis append_assoc)
  have 2: "?K m (drop (length p) body @ c2) = Inr (m, drop 8 (drop (length p) body @ c2))"
    using c(2) by (auto simp: seq_def ReadFull_def ret_def)
  from 1 2 have "seq (readRDB_k now ret) ?K (body @ c2) = Inr (m, drop 8 (drop (length p) body @ c2))"
    unfolding seq_Inr_iff[of "readRDB_k now ret"] by blast
  then show ?thesis
    unfolding readRDB_checksum_last by blast
qed

lemma loaded_plain:
  "loaded 0 [''a'' \<mapsto> \<lparr>kv_value = ''1'', kv_expiry = None\<rparr>]
   = [''a'' \<mapsto> \<lparr>kv_value = ''1'', kv_expiry = None\<rparr>]"
  by (rule ext) (simp add: loaded_def expired_on_load_def)



lemma SETs_initRDB: "SETs (initRDB os ks s) = SETs s"
  by (simp add: initRDB_def)

lemma SETs_resolve_snapshot: "SETs (resolve_snapshot os ks s) = SETs s"
  by (simp add: resolve_snapshot_def SETs_initRDB)


lemma get_Cons:
  "get os ks now (a0 # args) s =
     (case readRDBFile os now (rdb_file (resolve_snapshot os ks s)) of
        Inl err \<Rightarrow> (Inr (Value ''error'' ''ERR unable to read file'' [] []), resolve_snapshot os ks s)
      | Inr data \<Rightarrow>
          if empty_or_absent data (bulk a0) then get_memory now (bulk a0) (resolve_snapshot os ks s)
          else (Inr (Value ''bulk'' [] (kv_value (the (data (bulk a0)))) []), resolve_snapshot os ks s))"
  by (simp add: get_def resolve_snapshot_def empty_or_absent_def map_index_def Let_def
      split: sum.splits option.splits)

lemma get_memory_cases:
  "get_memory now key s =
     (case SETs s key of
        None \<Rightarrow> (Inr (Value ''null'' [] [] []), s)
      | Some v \<Rightarrow>
          if kv_value v = [] then (Inr (Value ''null'' [] [] []), s)
          else (case kv_expiry v of
                  None \<Rightarrow> (Inr (Value ''bulk'' [] (kv_value v) []), s)
                | Some expiry \<Rightarrow>
                    if expiry < now
                    then (Inr (Value ''null'' [] [] []), s\<lparr>SETs := (SETs s)(key := None)\<rparr>)
                    else (Inr (Value ''bulk'' [] (kv_value v) []), s)))"
  by (simp add: get_memory_def map_index_def zeroKeyValue_def After_def Let_def
      split: option.splits)

lemma fits_all:
  assumes "range_order store ks"
    and "\<forall>key v. store key = Some v \<longrightarrow> length key < 16384 \<and> length (kv_value v) < 16384"
  shows "list_all (fits store) ks"
  unfolding list_all_iff
proof
  fix key assume "key \<in> set ks"
  with assms(1) obtain v where "store key = Some v" by (auto simp: range_order_def)
  with assms(2) show "fits store key" by (simp add: fits_def)
qed

lemma save_file:
  assumes "OpenFile_ok os" "Checksum_ok os"
  shows "snd (save os ks args s) =
         s\<lparr>rdb_file := Some (rdb_body ks (SETs s) @ calculateCRC64Checksum (rdb_body ks (SETs s)))\<rparr>"
  using assms by (simp add: save_def initRDB_def)

lemma load_after_save:
  assumes os: "OpenFile_ok os" "Checksum_ok os" "Open_ok os"
    and ord: "range_order (SETs s) ks"
    and count: "card (dom (SETs s)) \<le> 255"
    and ent: "\<forall>key v. SETs s key = Some v \<longrightarrow> length key < 16384 \<and> length (kv_value v) < 16384"
  shows "readRDBFile os now (rdb_file (snd (save os ks args s))) = Inr (loaded now (SETs s))"
proof -
  from ord have "card (dom (SETs s)) = length ks"
    by (metis range_order_def distinct_card)
  with count have len: "length ks \<le> 255" by simp
  have c: "length (calculateCRC64Checksum (rdb_body ks (SETs s))) = 8"
    by (simp add: calculateCRC64Checksum_def length_PutUint)
  from readRDBFile_rdb_body[OF os(3) ord len fits_all[OF ord ent] c, of now]
  show ?thesis by (simp add: save_file[OF os(1,2)])
qed


lemma get_from_snapshot:
  assumes "readRDBFile os now (rdb_file (resolve_snapshot os ks s)) = Inr data"
    and "data (bulk a0) = Some kv" and "kv_value kv \<noteq> []"
  shows "get os ks now (a0 # args) s
         = (Inr (Value ''bulk'' [] (kv_value kv) []), resolve_snapshot os ks s)"
  using assms by (simp add: get_Cons empty_or_absent_def)

lemma get_falls_back:
  assumes "readRDBFile os now (rdb_file (resolve_snapshot os ks s)) = Inr data"
    and "empty_or_absent data (bulk a0)"
  shows "get os ks now (a0 # args) s = get_memory now (bulk a0) (resolve_snapshot os ks s)"
  using assms by (simp add: get_Cons)

lemma set_cmd_two:
  "set_cmd now [a0, a1] s
   = (Inr (Value ''string'' ''OK'' [] []),
      s\<lparr>SETs := (SETs s)(bulk a0 \<mapsto> \<lparr>kv_value = bulk a1, kv_expiry = None\<rparr>)\<rparr>)"
  by (simp add: set_cmd_def)

lemma rdb_body_not_Nil: "rdb_body ks store \<noteq> []"
  by (simp add: rdb_body_def bytes_of_def)

lemma readRDB_long_value:
  assumes "store = [''k'' \<mapsto> \<lparr>kv_value = replicate 16384 CHR ''x'', kv_expiry = None\<rparr>]"
  shows "readRDB now (rdb_body [''k''] store @ cs) = Inl ErrUnsupportedLengthEncoding"
proof -
  have long: "snd (stringEncoding (replicate 16384 CHR ''x'')) = []"
    by (simp add: stringEncoding_def lengthEncoding_def)
  have entries: "rdb_entries [''k''] store = [STRING_TYPE] @ snd (stringEncoding ''k'')"
    by (simp add: assms rdb_entries_def writeKeyValue_def long)
  have count: "unat (of_nat (card (dom store)) :: byte) = Suc 0"
    by (simp add: assms)
  have bad: "readString ([EOF] @ cs) = Inl ErrUnsupportedLengthEncoding"
    by (simp add: readString_def seq_def readLengthEncoded_def ReadByte_def EOF_def fail_def
        drop_bit_eq_div)
  have kv: "readKeyValue now ([STRING_TYPE] @ snd (stringEncoding ''k'') @ [EOF] @ cs)
            = Inl ErrUnsupportedLengthEncoding"
    using readString_stringEncoding[of "''k''" "[EOF] @ cs"] bad
    by (simp add: readKeyValue_def readKeyValue_tail_def seq_def ReadByte_def
        STRING_TYPE_def KEYVALUE_EXPIRY_def)
  have tail: "seq ReadByte (\<lambda>_. seq ReadByte (\<lambda>hashtableMarker.
       if hashtableMarker \<noteq> HASHTABLE_SIZE then fail (ErrExpectedHashtableSize hashtableMarker) else
     seq ReadByte (\<lambda>kvCount.
     seq ReadByte (\<lambda>_.
     seq (readKeyValues now (unat kvCount) Map.empty) (\<lambda>keyValues.
     seq ReadByte (\<lambda>eofMarker.
       if eofMarker \<noteq> EOF then fail (ErrExpectedEOF eofMarker) else
     seq (ReadFull 8) (\<lambda>checksumBytes. ret keyValues)))))))
     ([DB_INDEX] @ [HASHTABLE_SIZE, of_nat (card (dom store))] @ [0x00] @ rdb_entries [''k''] store @ [EOF] @ cs)
     = Inl ErrUnsupportedLengthEncoding"
    using kv by (simp add: seq_def ReadByte_def count entries)
  show ?thesis
    unfolding readRDB_eq readRDB_k_def rdb_body_def
    by (simp only: append_assoc seq_def[of verifyHeader] verifyHeader_magic sum.case prod.case
        metadata_then_written tail)
qed

lemma one_byte_keys_order: "range_order one_byte_store one_byte_keys"
proof -
  have d: "distinct one_byte_keys"
    unfolding one_byte_keys_def
    by (simp add: distinct_map inj_on_def)
  have "set one_byte_keys = {key. length key = 1}"
  proof (intro set_eqI iffI)
    fix key assume "key \<in> set one_byte_keys"
    then show "key \<in> {key. length key = 1}" by (auto simp: one_byte_keys_def)
  next
    fix key :: string assume "key \<in> {key. length key = 1}"
    then obtain c where c: "key = [c]" by (cases key) auto
    have "c = char_of (of_char c :: nat)" by simp
    moreover have "(of_char c :: nat) < 256" by simp
    ultimately have "[c] \<in> (\<lambda>n. [char_of n]) ` {0..<256::nat}"
      by (metis atLeastLessThan_iff image_eqI zero_le)
    with c show "key \<in> set one_byte_keys" by (simp add: one_byte_keys_def)
  qed
  also have "\<dots> = dom one_byte_store"
    by (auto simp: one_byte_store_def dom_def)
  finally show ?thesis using d by (simp add: range_order_def)
qed

lemma one_byte_keys_count: "card (dom one_byte_store) = 256"
proof -
  from one_byte_keys_order have "card (dom one_byte_store) = length one_byte_keys"
    by (metis range_order_def distinct_card)
  then show ?thesis by (simp add: one_byte_keys_def)
qed

lemma readRDB_one_byte_keys:
  "readRDB now (rdb_body one_byte_keys one_byte_store @ cs) = Inl (ErrExpectedEOF 0)"
proof -
  have count: "unat (of_nat (card (dom one_byte_store)) :: byte) = 0"
    by (simp add: one_byte_keys_count)
  have "one_byte_keys = [char_of (0::nat)] # tl one_byte_keys"
    by (simp add: one_byte_keys_def upt_conv_Cons)
  then have "rdb_entries one_byte_keys one_byte_store
      = writeKeyValue [char_of (0::nat)] \<lparr>kv_value = ''v'', kv_expiry = None\<rparr>
        @ rdb_entries (tl one_byte_keys) one_byte_store"
    by (metis rdb_entries_Cons one_byte_store_def length_Cons list.size(3) One_nat_def)
  then obtain rest where entries: "rdb_entries one_byte_keys one_byte_store = STRING_TYPE # rest"
    by (simp add: writeKeyValue_def)
  have tail: "seq ReadByte (\<lambda>_. seq ReadByte (\<lambda>hashtableMarker.
       if hashtableMarker \<noteq> HASHTABLE_SIZE then fail (ErrExpectedHashtableSize hashtableMarker) else
     seq ReadByte (\<lambda>kvCount.
     seq ReadByte (\<lambda>_.
     seq (readKeyValues now (unat kvCount) Map.empty) (\<lambda>keyValues.
     seq ReadByte (\<lambda>eofMarker.
       if eofMarker \<noteq> EOF then fail (ErrExpectedEOF eofMarker) else
     seq (ReadFull 8) (\<lambda>checksumBytes. ret keyValues)))))))
     ([DB_INDEX] @ [HASHTABLE_SIZE, of_nat (card (dom one_byte_store))] @ [0x00]
        @ rdb_entries one_byte_keys one_byte_store @ [EOF] @ cs)
     = Inl (ErrExpectedEOF 0)"
    by (simp add: seq_def ReadByte_def count entries STRING_TYPE_def EOF_def fail_def)
  show ?thesis
    unfolding readRDB_eq readRDB_k_def rdb_body_def
    by (simp only: append_assoc seq_def[of verifyHeader] verifyHeader_magic sum.case prod.case
        metadata_then_written tail)
qed



lemma state_after_save_set:
  assumes "OpenFile_ok os" "Checksum_ok os"
  shows "snd (set_cmd now' [a0, a1] (snd (save os ks args s)))
         = s\<lparr>SETs := (SETs s)(bulk a0 \<mapsto> \<lparr>kv_value = bulk a1, kv_expiry = None\<rparr>),
              rdb_file := Some (rdb_body ks (SETs s) @ calculateCRC64Checksum (rdb_body ks (SETs s)))\<rparr>"
  using assms by (simp add: set_cmd_two save_def initRDB_def)

lemma get_with_file:
  "rdb_file s = Some content \<Longrightarrow>
   get os ks now (a0 # args) s =
     (case readRDBFile os now (Some content) of
        Inl err \<Rightarrow> (Inr (Value ''error'' ''ERR unable to read file'' [] []), s)
      | Inr data \<Rightarrow>
          if empty_or_absent data (bulk a0) then get_memory now (bulk a0) s
          else (Inr (Value ''bulk'' [] (kv_value (the (data (bulk a0)))) []), s))"
proof -
  assume f: "rdb_file s = Some content"
  then have "resolve_snapshot os ks s = s" by (simp add: resolve_snapshot_def)
  with f show ?thesis by (simp add: get_Cons split: sum.splits)
qed

lemma readRDBFile_saved:
  assumes "Open_ok os" "range_order store ks" "card (dom store) \<le> 255"
    and "\<forall>key v. store key = Some v \<longrightarrow> length key < 16384 \<and> length (kv_value v) < 16384"
  shows "readRDBFile os now (Some (rdb_body ks store @ calculateCRC64Checksum (rdb_body ks store)))
         = Inr (loaded now store)"
proof -
  from assms(2) have "card (dom store) = length ks"
    by (metis range_order_def distinct_card)
  with assms(3) have len: "length ks \<le> 255" by simp
  have c: "length (calculateCRC64Checksum (rdb_body ks store)) = 8"
    by (simp add: calculateCRC64Checksum_def length_PutUint)
  from readRDBFile_rdb_body[OF assms(1,2) len fits_all[OF assms(2,4)] c]
  show ?thesis .
qed



lemma get_new_after_save_set:
  assumes "OpenFile_ok os" "Checksum_ok os" "Open_ok os'"
    and "range_order (SETs s) ks" "card (dom (SETs s)) \<le> 255"
    and "\<forall>key v. SETs s key = Some v \<longrightarrow> length key < 16384 \<and> length (kv_value v) < 16384"
    and "empty_or_absent (loaded now (SETs s)) (bulk a0)" and "bulk a1 \<noteq> []"
  shows "fst (get os' ks' now [a0] (snd (set_cmd now' [a0, a1] (snd (save os ks args s)))))
         = Inr (Value ''bulk'' [] (bulk a1) [])"
  using assms(7,8)
  by (simp add: state_after_save_set[OF assms(1,2)] get_with_file
      readRDBFile_saved[OF assms(3-6)] get_memory_cases)

section \<open>The claims\<close>

text \<open>
  C1. The claim is that \<open>Save\<close> followed by \<open>Load\<close> gives back exactly the keys
  and values of a store whose entries have not expired. It fails for the empty key,
  which \<open>readRDBFile\<close> skips, and for an expiry less than a millisecond ahead,
  which the file keeps rounded down to the millisecond. As amended: when the calls to
  the operating system succeed, the store has at most 255 entries, every key is not
  empty, every key and value is shorter than 16384 bytes, and no entry is expired on
  load (its expiry, rounded down to the millisecond, is not before the clock at load
  time), \<open>Load\<close> after \<open>Save\<close> succeeds and returns the keys of the store with their
  values, and with no expiry.
\<close>

theorem save_then_load:
  assumes "OpenFile_ok os" and "Checksum_ok os" and "Open_ok os"
    and "range_order (SETs s) ks"
    and "card (dom (SETs s)) \<le> 255"
    and "\<forall>key v. SETs s key = Some v \<longrightarrow>
           key \<noteq> [] \<and> length key < 16384 \<and> length (kv_value v) < 16384
           \<and> \<not> expired_on_load now v"
  shows "readRDBFile os now (rdb_file (snd (save os ks args s)))
         = Inr (\<lambda>key. map_option (\<lambda>v. \<lparr>kv_value = kv_value v, kv_expiry = None\<rparr>) (SETs s key))"
proof -
  from assms(6) have ent:
    "\<forall>key v. SETs s key = Some v \<longrightarrow> length key < 16384 \<and> length (kv_value v) < 16384"
    by blast
  have "loaded now (SETs s)
        = (\<lambda>key. map_option (\<lambda>v. \<lparr>kv_value = kv_value v, kv_expiry = None\<rparr>) (SETs s key))"
  proof (rule ext)
    fix key
    show "loaded now (SETs s) key
          = map_option (\<lambda>v. \<lparr>kv_value = kv_value v, kv_expiry = None\<rparr>) (SETs s key)"
      using assms(6) by (cases "SETs s key") (auto simp: loaded_def)
  qed
  with load_after_save[OF assms(1-5) ent, of now args] show ?thesis by simp
qed

text \<open>
  C1 on a store with one entry that expires five milliseconds after the load.
\<close>

theorem save_then_load_witness:
  "readRDBFile \<lparr>OpenFile_ok = True, Checksum_ok = True, Open_ok = True\<rparr> 0
     (rdb_file (snd (save \<lparr>OpenFile_ok = True, Checksum_ok = True, Open_ok = True\<rparr> [''a''] []
        \<lparr>SETs = [''a'' \<mapsto> \<lparr>kv_value = ''1'', kv_expiry = Some 5000000\<rparr>], rdb_file = None\<rparr>)))
   = Inr [''a'' \<mapsto> \<lparr>kv_value = ''1'', kv_expiry = None\<rparr>]"
proof -
  have "stored_expiry 5000000 = 5000000"
    by (simp add: stored_expiry_def UnixMilli_def time_UnixMilli_def)
  then have "(\<lambda>key. map_option (\<lambda>v. \<lparr>kv_value = kv_value v, kv_expiry = None\<rparr>)
            ([''a'' \<mapsto> \<lparr>kv_value = ''1'', kv_expiry = Some 5000000\<rparr>] key))
        = [''a'' \<mapsto> \<lparr>kv_value = ''1'', kv_expiry = None\<rparr>]"
    by (auto simp: fun_eq_iff)
  then show ?thesis
    using save_then_load[of "\<lparr>OpenFile_ok = True, Checksum_ok = True, Open_ok = True\<rparr>"
        "\<lparr>SETs = [''a'' \<mapsto> \<lparr>kv_value = ''1'', kv_expiry = Some 5000000\<rparr>], rdb_file = None\<rparr>"
        "[''a'']" 0 "[]"]
      \<open>stored_expiry 5000000 = 5000000\<close>
    by (simp add: range_order_def expired_on_load_def After_def)
qed

text \<open>
  C1 as stated fails: a store whose only key is the empty string, and a store whose
  only entry expires at 1.5 ms when the clock reads 1.2 ms (not expired: the clock is
  not after the expiry), both load as the empty map; the snapshot of a store with a
  value of 16384 bytes, and that of the store with the 256 keys of one byte, do not
  load; and nothing is there to load when the file could not be opened for writing.
\<close>

theorem save_then_load_counterexample:
  "readRDBFile \<lparr>OpenFile_ok = True, Checksum_ok = True, Open_ok = True\<rparr> 0
     (rdb_file (snd (save \<lparr>OpenFile_ok = True, Checksum_ok = True, Open_ok = True\<rparr> [[]] []
        \<lparr>SETs = [[] \<mapsto> \<lparr>kv_value = ''v'', kv_expiry = None\<rparr>], rdb_file = None\<rparr>)))
   = Inr Map.empty
   \<and> \<not> After 1200000 1500000
   \<and> readRDBFile \<lparr>OpenFile_ok = True, Checksum_ok = True, Open_ok = True\<rparr> 1200000
     (rdb_file (snd (save \<lparr>OpenFile_ok = True, Checksum_ok = True, Open_ok = True\<rparr> [''k''] []
        \<lparr>SETs = [''k'' \<mapsto> \<lparr>kv_value = ''v'', kv_expiry = Some 1500000\<rparr>], rdb_file = None\<rparr>)))
   = Inr Map.empty
   \<and> readRDBFile \<lparr>OpenFile_ok = True, Checksum_ok = True, Open_ok = True\<rparr> 0
     (rdb_file (snd (save \<lparr>OpenFile_ok = True, Checksum_ok = True, Open_ok = True\<rparr> [''k''] []
        \<lparr>SETs = [''k'' \<mapsto> \<lparr>kv_value = replicate 16384 CHR ''x'', kv_expiry = None\<rparr>],
         rdb_file = None\<rparr>)))
   = Inl ErrUnsupportedLengthEncoding
   \<and> readRDBFile \<lparr>OpenFile_ok = True, Checksum_ok = True, Open_ok = True\<rparr> 0
     (rdb_file (snd (save \<lparr>OpenFile_ok = True, Checksum_ok = True, Open_ok = True\<rparr>
        one_byte_keys [] \<lparr>SETs = one_byte_store, rdb_file = None\<rparr>)))
   = Inl (ErrExpectedEOF 0)
   \<and> readRDBFile \<lparr>OpenFile_ok = False, Checksum_ok = True, Open_ok = True\<rparr> 0
     (rdb_file (snd (save \<lparr>OpenFile_ok = False, Checksum_ok = True, Open_ok = True\<rparr> [''k''] []
        \<lparr>SETs = [''k'' \<mapsto> \<lparr>kv_value = ''v'', kv_expiry = None\<rparr>], rdb_file = None\<rparr>)))
   = Inl ErrOpen"
proof -
  let ?os = "\<lparr>OpenFile_ok = True, Checksum_ok = True, Open_ok = True\<rparr>"
  let ?s1 = "\<lparr>SETs = [[] \<mapsto> \<lparr>kv_value = ''v'', kv_expiry = None\<rparr>], rdb_file = None\<rparr>"
  let ?s2 = "\<lparr>SETs = [''k'' \<mapsto> \<lparr>kv_value = ''v'', kv_expiry = Some 1500000\<rparr>], rdb_file = None\<rparr>"
  have "readRDBFile ?os 0 (rdb_file (snd (save ?os [[]] [] ?s1))) = Inr (loaded 0 (SETs ?s1))"
    by (rule load_after_save) (simp_all add: range_order_def)
  moreover have "loaded 0 (SETs ?s1) = Map.empty"
    by (rule ext) (simp add: loaded_def)
  ultimately have 1: "readRDBFile ?os 0 (rdb_file (snd (save ?os [[]] [] ?s1))) = Inr Map.empty"
    by simp
  have "readRDBFile ?os 1200000 (rdb_file (snd (save ?os [''k''] [] ?s2)))
      = Inr (loaded 1200000 (SETs ?s2))"
    by (rule load_after_save) (simp_all add: range_order_def)
  moreover have "stored_expiry 1500000 = 1000000"
    by (simp add: stored_expiry_def UnixMilli_def time_UnixMilli_def)
  then have "loaded 1200000 (SETs ?s2) = Map.empty"
    by (intro ext) (simp add: loaded_def expired_on_load_def After_def)
  ultimately have 2: "readRDBFile ?os 1200000 (rdb_file (snd (save ?os [''k''] [] ?s2)))
      = Inr Map.empty"
    by simp
  have 3: "readRDBFile ?os 0 (rdb_file (snd (save ?os [''k''] []
        \<lparr>SETs = [''k'' \<mapsto> \<lparr>kv_value = replicate 16384 CHR ''x'', kv_expiry = None\<rparr>],
         rdb_file = None\<rparr>))) = Inl ErrUnsupportedLengthEncoding"
    by (simp add: save_file readRDBFile_def readRDB_long_value rdb_body_not_Nil)
  have 4: "readRDBFile ?os 0 (rdb_file (snd (save ?os one_byte_keys []
        \<lparr>SETs = one_byte_store, rdb_file = None\<rparr>))) = Inl (ErrExpectedEOF 0)"
    by (simp add: save_file readRDBFile_def readRDB_one_byte_keys rdb_body_not_Nil)
  have 5: "readRDBFile \<lparr>OpenFile_ok = False, Checksum_ok = True, Open_ok = True\<rparr> 0
     (rdb_file (snd (save \<lparr>OpenFile_ok = False, Checksum_ok = True, Open_ok = True\<rparr> [''k''] []
        \<lparr>SETs = [''k'' \<mapsto> \<lparr>kv_value = ''v'', kv_expiry = None\<rparr>], rdb_file = None\<rparr>)))
     = Inl ErrOpen"
    by (simp add: save_def initRDB_def readRDBFile_def)
  from 1 2 3 4 5 show ?thesis by (simp add: After_def)
qed




text \<open>
  C3. Length encoding: a length from 0 to 63 is one byte with the top two bits 00 that
  holds the length; a length from 64 to 16383 is two bytes, the first with the top two
  bits 01, and the other fourteen bits hold the length; a length of 16384 or more is an
  error; and \<open>readLengthEncoded\<close> reads the length back from what
  \<open>lengthEncoding\<close> produced, whatever follows it.
\<close>

theorem lengthEncoding_boundary:
  "(0 \<le> n \<and> n \<le> 63 \<longrightarrow>
      (\<exists>b. lengthEncoding n = Inr [b] \<and> drop_bit 6 b = 0 \<and> uint b = n))
   \<and> (64 \<le> n \<and> n \<le> 16383 \<longrightarrow>
      (\<exists>b1 b2. lengthEncoding n = Inr [b1, b2] \<and> drop_bit 6 b1 = 1
         \<and> uint (b1 AND 0x3F) * 256 + uint b2 = n))
   \<and> (16384 \<le> n \<longrightarrow> (\<exists>e. lengthEncoding n = Inl e))
   \<and> (0 \<le> n \<longrightarrow>
      (\<forall>bs rest. lengthEncoding n = Inr bs \<longrightarrow> readLengthEncoded (bs @ rest) = Inr (n, rest)))"
proof (intro conjI impI allI)
  assume "0 \<le> n \<and> n \<le> 63"
  then have n: "0 \<le> n" "n \<le> 63" "n < 64" by simp_all
  from lengthEncoding_short[OF n(1,2)] short_byte(1,4)[OF n(1,3)]
  show "\<exists>b. lengthEncoding n = Inr [b] \<and> drop_bit 6 b = 0 \<and> uint b = n" by blast
next
  assume "64 \<le> n \<and> n \<le> 16383"
  then have n: "64 \<le> n" "n \<le> 16383" "0 \<le> n" by simp_all
  then have q: "0 \<le> n div 256" "n div 256 < 64" by auto
  have "uint (word_of_int n :: byte) = n mod 256"
    by (simp add: uint_word_of_int)
  then have "uint ((word_of_int (n div 256) OR 0x40 :: byte) AND 0x3F) * 256 + uint (word_of_int n :: byte) = n"
    by (simp only: short_byte(3,4)[OF q]) simp
  with lengthEncoding_long[OF n(1,2)] short_byte(2)[OF q]
  show "\<exists>b1 b2. lengthEncoding n = Inr [b1, b2] \<and> drop_bit 6 b1 = 1
         \<and> uint (b1 AND 0x3F) * 256 + uint b2 = n" by blast
next
  assume "16384 \<le> n"
  from lengthEncoding_fail[OF this] show "\<exists>e. lengthEncoding n = Inl e" by blast
next
  fix bs rest
  assume "0 \<le> n" "lengthEncoding n = Inr bs"
  from readsD[OF reads_readLengthEncoded[OF this]]
  show "readLengthEncoded (bs @ rest) = Inr (n, rest)" .
qed

text \<open>
  C3 at the boundaries 63, 64, 16383 and 16384.
\<close>

theorem lengthEncoding_boundary_witness:
  "lengthEncoding 63 = Inr [63] \<and> lengthEncoding 64 = Inr [0x40, 0x40]
   \<and> lengthEncoding 16383 = Inr [0x7F, 0xFF]
   \<and> lengthEncoding 16384 = Inl (ErrLengthTooLarge 16384)
   \<and> readLengthEncoded ([0x7F, 0xFF] @ [1, 2, 3]) = Inr (16383, [1, 2, 3])"
proof -
  have e: "lengthEncoding 63 = Inr [63]" "lengthEncoding 64 = Inr [0x40, 0x40]"
    "lengthEncoding 16383 = Inr [0x7F, 0xFF]"
    "lengthEncoding 16384 = Inl (ErrLengthTooLarge 16384)"
    by (simp_all add: lengthEncoding_def)
  from lengthEncoding_boundary[of 16383] e(3)
  have "readLengthEncoded ([0x7F, 0xFF] @ [1, 2, 3]) = Inr (16383, [1, 2, 3])"
    by simp
  with e show ?thesis by simp
qed

text \<open>
  C4. The claim is that a handler called with too few arguments returns an error reply.
  The code does so only for \<open>set\<close> with fewer than two arguments: \<open>echo\<close>,
  \<open>get\<close> and \<open>keys\<close> with no argument, and \<open>set\<close> with exactly three, index
  their argument slice out of range and panic.
\<close>

theorem missing_arguments_panic:
  "echo [] = Inl IndexOutOfRange
   \<and> fst (get os ks now [] s) = Inl IndexOutOfRange
   \<and> fst (keys os ks now [] s) = Inl IndexOutOfRange
   \<and> fst (set_cmd now [a0, a1, a2] s) = Inl IndexOutOfRange
   \<and> fst (set_cmd now [] s) = Inr (Value ''error'' ''ERR wrong number of arguments for 'set' command'' [] [])
   \<and> fst (set_cmd now [a0] s) = Inr (Value ''error'' ''ERR wrong number of arguments for 'set' command'' [] [])"
  by (simp add: echo_def get_def keys_def set_cmd_def)

text \<open>
  C4 at \<open>ECHO\<close> with no argument and at \<open>SET k v px\<close>.
\<close>

theorem missing_arguments_panic_witness:
  "echo [] = Inl IndexOutOfRange
   \<and> fst (set_cmd 0 [Value ''bulk'' [] ''k'' [], Value ''bulk'' [] ''v'' [], Value ''bulk'' [] ''px'' []]
         \<lparr>SETs = Map.empty, rdb_file = None\<rparr>) = Inl IndexOutOfRange"
  using missing_arguments_panic[of "\<lparr>OpenFile_ok = True, Checksum_ok = True, Open_ok = True\<rparr>" "[]" 0
      "\<lparr>SETs = Map.empty, rdb_file = None\<rparr>"
      "Value ''bulk'' [] ''k'' []" "Value ''bulk'' [] ''v'' []" "Value ''bulk'' [] ''px'' []"]
  by simp



text \<open>
  C6. \<open>save\<close> replies with the simple string OK for every argument list, every
  state and every outcome of the calls to the operating system.
\<close>

theorem save_always_OK:
  "fst (save os ks args s) = Inr (Value ''string'' ''OK'' [] [])"
  by (simp add: save_def)

text \<open>
  C6 where the file cannot be opened: the reply is OK and nothing was written.
\<close>

theorem save_always_OK_witness:
  "fst (save \<lparr>OpenFile_ok = False, Checksum_ok = False, Open_ok = False\<rparr> [] []
          \<lparr>SETs = Map.empty, rdb_file = None\<rparr>) = Inr (Value ''string'' ''OK'' [] [])
   \<and> snd (save \<lparr>OpenFile_ok = False, Checksum_ok = False, Open_ok = False\<rparr> [] []
          \<lparr>SETs = Map.empty, rdb_file = None\<rparr>) = \<lparr>SETs = Map.empty, rdb_file = None\<rparr>"
  using save_always_OK[of "\<lparr>OpenFile_ok = False, Checksum_ok = False, Open_ok = False\<rparr>" "[]" "[]"
      "\<lparr>SETs = Map.empty, rdb_file = None\<rparr>"]
  by (simp add: save_def initRDB_def)

text \<open>
  C7. The claim is that, for a key the snapshot does not resolve, \<open>get\<close> deletes an
  entry of the store whose expiry is in the past and returns Null, and returns the value
  of an entry with no expiry or a later one. It fails for an entry whose value is empty:
  \<open>get\<close> returns Null before it looks at the expiry, and deletes nothing. As amended,
  for an entry of the store whose value is not empty, where the snapshot file decodes
  and has no entry or an empty value for the key: when the expiry is set and before the
  clock, \<open>get\<close> returns Null and removes the entry from the store; when there is no
  expiry, or the expiry is not before the clock, \<open>get\<close> returns the value and the
  store is unchanged.
\<close>

theorem get_lazy_expiry:
  assumes "readRDBFile os now (rdb_file (resolve_snapshot os ks s)) = Inr data"
    and "empty_or_absent data (bulk a0)"
    and "SETs s (bulk a0) = Some v" and "kv_value v \<noteq> []"
  shows "(\<forall>expiry. kv_expiry v = Some expiry \<and> expiry < now \<longrightarrow>
            get os ks now (a0 # args) s
            = (Inr (Value ''null'' [] [] []),
               (resolve_snapshot os ks s)\<lparr>SETs := (SETs s)(bulk a0 := None)\<rparr>))
         \<and> (kv_expiry v = None \<or> (\<exists>expiry. kv_expiry v = Some expiry \<and> now \<le> expiry) \<longrightarrow>
            get os ks now (a0 # args) s
            = (Inr (Value ''bulk'' [] (kv_value v) []), resolve_snapshot os ks s))"
proof -
  have "get os ks now (a0 # args) s = get_memory now (bulk a0) (resolve_snapshot os ks s)"
    using assms(1,2) by (rule get_falls_back)
  with assms(3,4) show ?thesis
    by (auto simp: get_memory_cases SETs_resolve_snapshot)
qed

text \<open>
  C7 at clock 5 on an entry that expired at 1, and on one that expires at 9; the
  snapshot is that of the empty store.
\<close>

theorem get_lazy_expiry_witness:
  "get \<lparr>OpenFile_ok = True, Checksum_ok = True, Open_ok = True\<rparr> [] 5
       [Value ''bulk'' [] ''k'' []]
       \<lparr>SETs = [''k'' \<mapsto> \<lparr>kv_value = ''v'', kv_expiry = Some 1\<rparr>],
        rdb_file = Some (rdb_body [] Map.empty @ replicate 8 0)\<rparr>
   = (Inr (Value ''null'' [] [] []),
      \<lparr>SETs = Map.empty, rdb_file = Some (rdb_body [] Map.empty @ replicate 8 0)\<rparr>)
   \<and> get \<lparr>OpenFile_ok = True, Checksum_ok = True, Open_ok = True\<rparr> [] 5
       [Value ''bulk'' [] ''k'' []]
       \<lparr>SETs = [''k'' \<mapsto> \<lparr>kv_value = ''v'', kv_expiry = Some 9\<rparr>],
        rdb_file = Some (rdb_body [] Map.empty @ replicate 8 0)\<rparr>
   = (Inr (Value ''bulk'' [] ''v'' []),
      \<lparr>SETs = [''k'' \<mapsto> \<lparr>kv_value = ''v'', kv_expiry = Some 9\<rparr>],
        rdb_file = Some (rdb_body [] Map.empty @ replicate 8 0)\<rparr>)"
proof -
  let ?os = "\<lparr>OpenFile_ok = True, Checksum_ok = True, Open_ok = True\<rparr>"
  let ?f = "Some (rdb_body [] Map.empty @ replicate 8 (0 :: byte))"
  have load: "readRDBFile ?os 5 ?f = Inr (loaded 5 Map.empty)"
    by (rule readRDBFile_rdb_body) (simp_all add: range_order_def)
  have emp: "empty_or_absent (loaded 5 Map.empty) ''k''"
    by (simp add: empty_or_absent_def loaded_def)
  have 1: "readRDBFile ?os 5 (rdb_file (resolve_snapshot ?os []
      \<lparr>SETs = [''k'' \<mapsto> \<lparr>kv_value = ''v'', kv_expiry = Some e\<rparr>], rdb_file = ?f\<rparr>))
      = Inr (loaded 5 Map.empty)" for e
    using load by (simp add: resolve_snapshot_def)
  from get_lazy_expiry[OF 1[of 1], of "Value ''bulk'' [] ''k'' []" "\<lparr>kv_value = ''v'', kv_expiry = Some 1\<rparr>" "[]"]
    get_lazy_expiry[OF 1[of 9], of "Value ''bulk'' [] ''k'' []" "\<lparr>kv_value = ''v'', kv_expiry = Some 9\<rparr>" "[]"]
    emp
  show ?thesis by (simp add: resolve_snapshot_def)
qed

text \<open>
  C7 as stated fails on an entry with the empty value: expired at 1, it is still in
  the store after \<open>get\<close> at clock 5; with no expiry, the reply is Null and not the
  stored value.
\<close>

theorem get_lazy_expiry_counterexample:
  "get \<lparr>OpenFile_ok = True, Checksum_ok = True, Open_ok = True\<rparr> [] 5
       [Value ''bulk'' [] ''k'' []]
       \<lparr>SETs = [''k'' \<mapsto> \<lparr>kv_value = [], kv_expiry = Some 1\<rparr>],
        rdb_file = Some (rdb_body [] Map.empty @ replicate 8 0)\<rparr>
   = (Inr (Value ''null'' [] [] []),
      \<lparr>SETs = [''k'' \<mapsto> \<lparr>kv_value = [], kv_expiry = Some 1\<rparr>],
        rdb_file = Some (rdb_body [] Map.empty @ replicate 8 0)\<rparr>)
   \<and> get \<lparr>OpenFile_ok = True, Checksum_ok = True, Open_ok = True\<rparr> [] 5
       [Value ''bulk'' [] ''k'' []]
       \<lparr>SETs = [''k'' \<mapsto> \<lparr>kv_value = [], kv_expiry = None\<rparr>],
        rdb_file = Some (rdb_body [] Map.empty @ replicate 8 0)\<rparr>
   = (Inr (Value ''null'' [] [] []),
      \<lparr>SETs = [''k'' \<mapsto> \<lparr>kv_value = [], kv_expiry = None\<rparr>],
        rdb_file = Some (rdb_body [] Map.empty @ replicate 8 0)\<rparr>)"
proof -
  let ?os = "\<lparr>OpenFile_ok = True, Checksum_ok = True, Open_ok = True\<rparr>"
  let ?f = "Some (rdb_body [] Map.empty @ replicate 8 (0 :: byte))"
  have load: "readRDBFile ?os 5 ?f = Inr (loaded 5 Map.empty)"
    by (rule readRDBFile_rdb_body) (simp_all add: range_order_def)
  have emp: "empty_or_absent (loaded 5 Map.empty) ''k''"
    by (simp add: empty_or_absent_def loaded_def)
  show ?thesis
    using load emp by (simp add: get_Cons resolve_snapshot_def get_memory_cases)
qed

text \<open>
  C8. \<open>readRDBFile\<close> never looks at the checksum: when it accepts a file, it accepts
  every file that differs from it only in the last eight bytes, and returns the same
  map.
\<close>

theorem Load_ignores_checksum:
  assumes "length c1 = 8" and "length c2 = 8"
    and "readRDBFile os now (Some (body @ c1)) = Inr m"
  shows "readRDBFile os now (Some (body @ c2)) = Inr m"
proof -
  from assms(3) obtain rest where ok: "Open_ok os" and "readRDB now (body @ c1) = Inr (m, rest)"
    by (auto simp: readRDBFile_def split: if_splits sum.splits)
  from readRDB_checksum_free[OF this(2) assms(1,2)] obtain rest' where
    "readRDB now (body @ c2) = Inr (m, rest')" by blast
  with ok assms(2) show ?thesis by (auto simp: readRDBFile_def)
qed

text \<open>
  C8 on the snapshot of a store with one entry, with its checksum and with eight
  bytes \<open>0xFF\<close> in its place.
\<close>

theorem Load_ignores_checksum_witness:
  "readRDBFile \<lparr>OpenFile_ok = True, Checksum_ok = True, Open_ok = True\<rparr> 0
     (Some (rdb_body [''a''] [''a'' \<mapsto> \<lparr>kv_value = ''1'', kv_expiry = None\<rparr>]
            @ calculateCRC64Checksum
                (rdb_body [''a''] [''a'' \<mapsto> \<lparr>kv_value = ''1'', kv_expiry = None\<rparr>])))
     = Inr [''a'' \<mapsto> \<lparr>kv_value = ''1'', kv_expiry = None\<rparr>]
   \<and> readRDBFile \<lparr>OpenFile_ok = True, Checksum_ok = True, Open_ok = True\<rparr> 0
     (Some (rdb_body [''a''] [''a'' \<mapsto> \<lparr>kv_value = ''1'', kv_expiry = None\<rparr>]
            @ replicate 8 0xFF))
     = Inr [''a'' \<mapsto> \<lparr>kv_value = ''1'', kv_expiry = None\<rparr>]"
proof -
  let ?os = "\<lparr>OpenFile_ok = True, Checksum_ok = True, Open_ok = True\<rparr>"
  let ?store = "[''a'' \<mapsto> \<lparr>kv_value = ''1'', kv_expiry = None\<rparr>]"
  let ?body = "rdb_body [''a''] ?store"
  have c1: "length (calculateCRC64Checksum ?body) = 8"
    by (simp add: calculateCRC64Checksum_def length_PutUint)
  have c2: "length (replicate 8 (0xFF :: byte)) = 8" by simp
  have "readRDBFile ?os 0 (Some (?body @ calculateCRC64Checksum ?body)) = Inr (loaded 0 ?store)"
    by (rule readRDBFile_rdb_body) (simp_all add: range_order_def fits_def c1)
  then have 1: "readRDBFile ?os 0 (Some (?body @ calculateCRC64Checksum ?body)) = Inr ?store"
    by (simp only: loaded_plain)
  from Load_ignores_checksum[OF c1 c2 1] 1 show ?thesis by blast
qed

text \<open>
  C9. The claim is that \<open>get\<close> returns Null for every key whose value is the empty
  string in the snapshot, in the store, or in both. It fails when the value is empty in
  one of the two and not in the other: \<open>get\<close> then returns the other value. As
  amended: \<open>get\<close> never replies with an empty bulk string; when the snapshot file
  decodes and both the decoded map and the store have no entry or the empty value for
  the key, \<open>get\<close> replies Null; when the decoded map has a non-empty value for the
  key, \<open>get\<close> replies with it, whatever the store holds; and when the decoded map
  has no entry or the empty value and the store has a non-empty value, \<open>get\<close>
  replies with the value of the store, or with Null, removing the entry, when its expiry
  is before the clock.
\<close>

theorem get_empty_value_is_null:
  "fst (get os ks now args s) \<noteq> Inr (Value ''bulk'' [] [] [])
   \<and> (readRDBFile os now (rdb_file (resolve_snapshot os ks s)) = Inr data
        \<and> empty_or_absent data (bulk a0) \<and> empty_or_absent (SETs s) (bulk a0) \<longrightarrow>
      get os ks now (a0 # args') s = (Inr (Value ''null'' [] [] []), resolve_snapshot os ks s))
   \<and> (readRDBFile os now (rdb_file (resolve_snapshot os ks s)) = Inr data
        \<and> data (bulk a0) = Some kv \<and> kv_value kv \<noteq> [] \<longrightarrow>
      get os ks now (a0 # args') s
        = (Inr (Value ''bulk'' [] (kv_value kv) []), resolve_snapshot os ks s))
   \<and> (readRDBFile os now (rdb_file (resolve_snapshot os ks s)) = Inr data
        \<and> empty_or_absent data (bulk a0) \<and> SETs s (bulk a0) = Some v \<and> kv_value v \<noteq> [] \<longrightarrow>
      get os ks now (a0 # args') s
        = (case kv_expiry v of
             None \<Rightarrow> (Inr (Value ''bulk'' [] (kv_value v) []), resolve_snapshot os ks s)
           | Some expiry \<Rightarrow>
               if expiry < now
               then (Inr (Value ''null'' [] [] []),
                     (resolve_snapshot os ks s)\<lparr>SETs := (SETs s)(bulk a0 := None)\<rparr>)
               else (Inr (Value ''bulk'' [] (kv_value v) []), resolve_snapshot os ks s)))"
proof (intro conjI impI)
  show "fst (get os ks now args s) \<noteq> Inr (Value ''bulk'' [] [] [])"
  proof (cases args)
    case Nil
    then show ?thesis by (simp add: get_def)
  next
    case (Cons a0 rest)
    then show ?thesis
      by (auto simp: get_Cons get_memory_cases empty_or_absent_def
          split: sum.splits option.splits if_splits)
  qed
next
  assume "readRDBFile os now (rdb_file (resolve_snapshot os ks s)) = Inr data
        \<and> empty_or_absent data (bulk a0) \<and> empty_or_absent (SETs s) (bulk a0)"
  then show "get os ks now (a0 # args') s = (Inr (Value ''null'' [] [] []), resolve_snapshot os ks s)"
    by (auto simp: get_Cons get_memory_cases SETs_resolve_snapshot empty_or_absent_def
        split: option.splits)
next
  assume "readRDBFile os now (rdb_file (resolve_snapshot os ks s)) = Inr data
        \<and> data (bulk a0) = Some kv \<and> kv_value kv \<noteq> []"
  then show "get os ks now (a0 # args') s
        = (Inr (Value ''bulk'' [] (kv_value kv) []), resolve_snapshot os ks s)"
    using get_from_snapshot by blast
next
  assume a: "readRDBFile os now (rdb_file (resolve_snapshot os ks s)) = Inr data
        \<and> empty_or_absent data (bulk a0) \<and> SETs s (bulk a0) = Some v \<and> kv_value v \<noteq> []"
  then have "get os ks now (a0 # args') s = get_memory now (bulk a0) (resolve_snapshot os ks s)"
    using get_falls_back by blast
  with a show "get os ks now (a0 # args') s
        = (case kv_expiry v of
             None \<Rightarrow> (Inr (Value ''bulk'' [] (kv_value v) []), resolve_snapshot os ks s)
           | Some expiry \<Rightarrow>
               if expiry < now
               then (Inr (Value ''null'' [] [] []),
                     (resolve_snapshot os ks s)\<lparr>SETs := (SETs s)(bulk a0 := None)\<rparr>)
               else (Inr (Value ''bulk'' [] (kv_value v) []), resolve_snapshot os ks s))"
    by (simp add: get_memory_cases SETs_resolve_snapshot split: option.splits)
qed

text \<open>
  C9 on a key bound to the empty string in the snapshot and in the store; to \<open>s\<close> in
  the snapshot and the empty string in the store; and to \<open>m\<close> in the store with no
  entry in the snapshot.
\<close>

theorem get_empty_value_is_null_witness:
  "get \<lparr>OpenFile_ok = True, Checksum_ok = True, Open_ok = True\<rparr> [] 0
       [Value ''bulk'' [] ''k'' []]
       \<lparr>SETs = [''k'' \<mapsto> \<lparr>kv_value = [], kv_expiry = None\<rparr>],
        rdb_file = Some (rdb_body [''k''] [''k'' \<mapsto> \<lparr>kv_value = [], kv_expiry = None\<rparr>]
                         @ replicate 8 0)\<rparr>
   = (Inr (Value ''null'' [] [] []),
      \<lparr>SETs = [''k'' \<mapsto> \<lparr>kv_value = [], kv_expiry = None\<rparr>],
        rdb_file = Some (rdb_body [''k''] [''k'' \<mapsto> \<lparr>kv_value = [], kv_expiry = None\<rparr>]
                         @ replicate 8 0)\<rparr>)
   \<and> get \<lparr>OpenFile_ok = True, Checksum_ok = True, Open_ok = True\<rparr> [] 0
       [Value ''bulk'' [] ''k'' []]
       \<lparr>SETs = [''k'' \<mapsto> \<lparr>kv_value = [], kv_expiry = None\<rparr>],
        rdb_file = Some (rdb_body [''k''] [''k'' \<mapsto> \<lparr>kv_value = ''s'', kv_expiry = None\<rparr>]
                         @ replicate 8 0)\<rparr>
   = (Inr (Value ''bulk'' [] ''s'' []),
      \<lparr>SETs = [''k'' \<mapsto> \<lparr>kv_value = [], kv_expiry = None\<rparr>],
        rdb_file = Some (rdb_body [''k''] [''k'' \<mapsto> \<lparr>kv_value = ''s'', kv_expiry = None\<rparr>]
                         @ replicate 8 0)\<rparr>)
   \<and> get \<lparr>OpenFile_ok = True, Checksum_ok = True, Open_ok = True\<rparr> [] 0
       [Value ''bulk'' [] ''k'' []]
       \<lparr>SETs = [''k'' \<mapsto> \<lparr>kv_value = ''m'', kv_expiry = None\<rparr>],
        rdb_file = Some (rdb_body [] Map.empty @ replicate 8 0)\<rparr>
   = (Inr (Value ''bulk'' [] ''m'' []),
      \<lparr>SETs = [''k'' \<mapsto> \<lparr>kv_value = ''m'', kv_expiry = None\<rparr>],
        rdb_file = Some (rdb_body [] Map.empty @ replicate 8 0)\<rparr>)"
proof -
  let ?os = "\<lparr>OpenFile_ok = True, Checksum_ok = True, Open_ok = True\<rparr>"
  let ?a = "Value ''bulk'' [] ''k'' []"
  let ?e = "[''k'' \<mapsto> \<lparr>kv_value = [], kv_expiry = None\<rparr>]"
  let ?n = "[''k'' \<mapsto> \<lparr>kv_value = ''s'', kv_expiry = None\<rparr>]"
  let ?m = "[''k'' \<mapsto> \<lparr>kv_value = ''m'', kv_expiry = None\<rparr>]"
  let ?fe = "Some (rdb_body [''k''] ?e @ replicate 8 (0 :: byte))"
  let ?fn = "Some (rdb_body [''k''] ?n @ replicate 8 (0 :: byte))"
  let ?f0 = "Some (rdb_body [] Map.empty @ replicate 8 (0 :: byte))"
  have le: "readRDBFile ?os 0 ?fe = Inr (loaded 0 ?e)"
    by (rule readRDBFile_rdb_body) (simp_all add: range_order_def fits_def)
  have ln: "readRDBFile ?os 0 ?fn = Inr (loaded 0 ?n)"
    by (rule readRDBFile_rdb_body) (simp_all add: range_order_def fits_def)
  have l0: "readRDBFile ?os 0 ?f0 = Inr (loaded 0 Map.empty)"
    by (rule readRDBFile_rdb_body) (simp_all add: range_order_def)
  have r: "resolve_snapshot ?os [] \<lparr>SETs = st, rdb_file = Some c\<rparr> = \<lparr>SETs = st, rdb_file = Some c\<rparr>"
    for st c by (simp add: resolve_snapshot_def)
  have emp: "empty_or_absent (loaded 0 ?e) ''k''" "empty_or_absent ?e ''k''"
    "empty_or_absent (loaded 0 Map.empty) ''k''"
    "loaded 0 ?n ''k'' = Some \<lparr>kv_value = ''s'', kv_expiry = None\<rparr>"
    by (simp_all add: empty_or_absent_def loaded_def expired_on_load_def)
  from get_empty_value_is_null[of ?os "[]" 0 "[]" "\<lparr>SETs = ?e, rdb_file = ?fe\<rparr>"
      "loaded 0 ?e" ?a "[]"]
  have 1: "get ?os [] 0 [?a] \<lparr>SETs = ?e, rdb_file = ?fe\<rparr>
      = (Inr (Value ''null'' [] [] []), \<lparr>SETs = ?e, rdb_file = ?fe\<rparr>)"
    using le emp by (simp add: r)
  from get_empty_value_is_null[of ?os "[]" 0 "[]" "\<lparr>SETs = ?e, rdb_file = ?fn\<rparr>"
      "loaded 0 ?n" ?a "[]" "\<lparr>kv_value = ''s'', kv_expiry = None\<rparr>"]
  have 2: "get ?os [] 0 [?a] \<lparr>SETs = ?e, rdb_file = ?fn\<rparr>
      = (Inr (Value ''bulk'' [] ''s'' []), \<lparr>SETs = ?e, rdb_file = ?fn\<rparr>)"
    using ln emp by (simp add: r)
  from get_empty_value_is_null[of ?os "[]" 0 "[]" "\<lparr>SETs = ?m, rdb_file = ?f0\<rparr>"
      "loaded 0 Map.empty" ?a "[]" "\<lparr>kv_value = [], kv_expiry = None\<rparr>" "\<lparr>kv_value = ''m'', kv_expiry = None\<rparr>"]
  have 3: "get ?os [] 0 [?a] \<lparr>SETs = ?m, rdb_file = ?f0\<rparr>
      = (Inr (Value ''bulk'' [] ''m'' []), \<lparr>SETs = ?m, rdb_file = ?f0\<rparr>)"
    using l0 emp by (simp add: r)
  from 1 2 3 show ?thesis by simp
qed

text \<open>
  C9 as stated fails: after \<open>SET k ""\<close>, \<open>SAVE\<close> and \<open>SET k v\<close>, the value of
  \<open>k\<close> in the snapshot is the empty string, and \<open>GET k\<close> replies with the bulk
  string \<open>v\<close>.
\<close>

theorem get_empty_value_is_null_counterexample:
  "fst (get \<lparr>OpenFile_ok = True, Checksum_ok = True, Open_ok = True\<rparr> [''k''] 0
         [Value ''bulk'' [] ''k'' []]
         (snd (set_cmd 0 [Value ''bulk'' [] ''k'' [], Value ''bulk'' [] ''v'' []]
            (snd (save \<lparr>OpenFile_ok = True, Checksum_ok = True, Open_ok = True\<rparr> [''k''] []
               (snd (set_cmd 0 [Value ''bulk'' [] ''k'' [], Value ''bulk'' [] [] []]
                  \<lparr>SETs = Map.empty, rdb_file = None\<rparr>)))))))
   = Inr (Value ''bulk'' [] ''v'' [])"
proof -
  let ?os = "\<lparr>OpenFile_ok = True, Checksum_ok = True, Open_ok = True\<rparr>"
  let ?s1 = "\<lparr>SETs = [''k'' \<mapsto> \<lparr>kv_value = [], kv_expiry = None\<rparr>], rdb_file = None\<rparr>"
  have s1: "snd (set_cmd 0 [Value ''bulk'' [] ''k'' [], Value ''bulk'' [] [] []]
                  \<lparr>SETs = Map.empty, rdb_file = None\<rparr>) = ?s1"
    by (simp add: set_cmd_two)
  have "fst (get ?os [''k''] 0 [Value ''bulk'' [] ''k'' []]
         (snd (set_cmd 0 [Value ''bulk'' [] ''k'' [], Value ''bulk'' [] ''v'' []]
            (snd (save ?os [''k''] [] ?s1)))))
     = Inr (Value ''bulk'' [] (bulk (Value ''bulk'' [] ''v'' [])) [])"
    by (rule get_new_after_save_set)
       (simp_all add: range_order_def empty_or_absent_def loaded_def expired_on_load_def)
  then show ?thesis by (simp only: s1 Value.sel)
qed

text \<open>
  C10. The map \<open>readRDBFile\<close> returns never binds the empty string: in the loop, an
  entry that decodes to the empty key, with any value, leaves the map as it was.
\<close>

theorem Load_never_binds_empty_key:
  "(readRDBFile os now file = Inr m \<longrightarrow> m [] = None)
   \<and> (readKeyValue now bs = Inr (([], val), rest) \<longrightarrow>
        readKeyValues now (Suc n) kvs bs = readKeyValues now n kvs rest)"
proof (intro conjI impI)
  assume a: "readRDBFile os now file = Inr m"
  then obtain content rest where "readRDB now content = Inr (m, rest)"
    by (auto simp: readRDBFile_def split: option.splits if_splits sum.splits)
  from readRDB_k_no_empty_key[OF this[unfolded readRDB_eq]]
  show "m [] = None" by (auto simp: seq_Inr_iff ret_def)
next
  assume "readKeyValue now bs = Inr (([], val), rest)"
  then show "readKeyValues now (Suc n) kvs bs = readKeyValues now n kvs rest" by simp
qed

text \<open>
  C10 on a snapshot whose only entry is a string entry with the empty key and no
  expiry.
\<close>

theorem Load_never_binds_empty_key_witness:
  "readRDBFile \<lparr>OpenFile_ok = True, Checksum_ok = True, Open_ok = True\<rparr> 0
     (Some (rdb_body [[]] [[] \<mapsto> \<lparr>kv_value = ''v'', kv_expiry = None\<rparr>] @ replicate 8 0))
     = Inr (loaded 0 [[] \<mapsto> \<lparr>kv_value = ''v'', kv_expiry = None\<rparr>])
   \<and> loaded 0 [[] \<mapsto> \<lparr>kv_value = ''v'', kv_expiry = None\<rparr>] [] = None"
proof -
  let ?os = "\<lparr>OpenFile_ok = True, Checksum_ok = True, Open_ok = True\<rparr>"
  let ?store = "[[] \<mapsto> \<lparr>kv_value = ''v'', kv_expiry = None\<rparr>]"
  have load: "readRDBFile ?os 0 (Some (rdb_body [[]] ?store @ replicate 8 0)) = Inr (loaded 0 ?store)"
    by (rule readRDBFile_rdb_body) (simp_all add: range_order_def fits_def)
  with Load_never_binds_empty_key[of ?os 0 "Some (rdb_body [[]] ?store @ replicate 8 0)"
      "loaded 0 ?store"]
  show ?thesis by blast
qed

end
